theory Spec2Isabelle
  imports Complex_Main
begin

section \<open>JavaScript strings\<close>

text \<open>
  A JavaScript string is a sequence of UTF-16 code units. The model below covers the
  strings whose code units are all below 256 and writes them as \<open>string\<close>, one
  \<open>char\<close> per code unit, so that \<open>length\<close> is the \<open>.length\<close> of the source.
  In that range the characters matched by the regular expression class \<open>\s\<close>, which are
  also the characters removed by \<open>String.prototype.trim\<close>, are TAB, LF, VT, FF, CR,
  SPACE and NBSP (U+00A0).
\<close>

definition js_whitespace :: "char \<Rightarrow> bool" where
  "js_whitespace c =
     (c = CHR 0x09 \<or> c = CHR 0x0A \<or> c = CHR 0x0B \<or> c = CHR 0x0C \<or> c = CHR 0x0D
      \<or> c = CHR 0x20 \<or> c = CHR 0xA0)"

text \<open>\<open>s.trim()\<close>: leading and trailing white space removed.\<close>

definition trim :: "string \<Rightarrow> string" where
  "trim s = rev (dropWhile js_whitespace (rev (dropWhile js_whitespace s)))"

text \<open>\<open>s.includes(sub)\<close>: \<open>sub\<close> occurs in \<open>s\<close> as a contiguous substring.\<close>

fun js_includes :: "string \<Rightarrow> string \<Rightarrow> bool" where
  "js_includes [] sub = (sub = [])"
| "js_includes (c # cs) sub = (take (length sub) (c # cs) = sub \<or> js_includes cs sub)"

text \<open>\<open>parts.join(sep)\<close>.\<close>

fun js_join :: "string \<Rightarrow> string list \<Rightarrow> string" where
  "js_join sep [] = []"
| "js_join sep [x] = x"
| "js_join sep (x # y # ys) = x @ sep @ js_join sep (y # ys)"

text \<open>
  One attempt of the regular expression \<open>/\s*\|\|\|\s*/\<close> at the start of \<open>s\<close>.
  Both stars are greedy and a bar is no white space, so no backtracking can rescue a
  failed attempt: the first star takes the whole leading white space, three bars must
  follow, and the second star takes the whole white space after them. The result is the
  text left after the match.
\<close>

definition match_delim :: "string \<Rightarrow> string option" where
  "match_delim s =
     (let s1 = dropWhile js_whitespace s
      in if take 3 s1 = ''|||'' then Some (dropWhile js_whitespace (drop 3 s1)) else None)"

text \<open>
  \<open>S.split(/\s*\|\|\|\s*/)\<close>, as the language standard runs it: the expression is
  tried at every position from the end of the last match on; a position where it fails
  joins the current part, a match closes the current part and the search resumes behind
  the match. The text after the last match is the last part. The expression matches no
  empty string, so the empty input gives one empty part. \<open>cur\<close> is the part collected
  so far.
\<close>

function split_from :: "string \<Rightarrow> string \<Rightarrow> string list" where
  "split_from cur [] = [cur]"
| "split_from cur (c # cs) =
     (case match_delim (c # cs) of
        Some rest \<Rightarrow> cur # split_from [] rest
      | None \<Rightarrow> split_from (cur @ [c]) cs)"
  by pat_completeness auto
termination
proof (relation "measure (\<lambda>(cur, s). length s)")
  show "wf (measure (\<lambda>(cur, s). length s))" by simp
next
  fix cur :: string and c cs rest
  assume m: "match_delim (c # cs) = Some rest"
  define s1 where "s1 = dropWhile js_whitespace (c # cs)"
  have r: "rest = dropWhile js_whitespace (drop 3 s1)" and t: "take 3 s1 = ''|||''"
    using m by (auto simp: match_delim_def s1_def Let_def split: if_splits)
  have "3 \<le> length s1"
  proof (rule ccontr)
    assume "\<not> 3 \<le> length s1"
    then have "length (take 3 s1) < 3" by simp
    with t show False by simp
  qed
  moreover have "length s1 \<le> length (c # cs)"
    unfolding s1_def by (rule length_dropWhile_le)
  moreover have "length rest \<le> length (drop 3 s1)"
    unfolding r by (rule length_dropWhile_le)
  ultimately have "length rest < length (c # cs)" by simp
  then show "((([]::string), rest), (cur, c # cs)) \<in> measure (\<lambda>(cur, s). length s)"
    by simp
next
  fix cur :: string and c cs
  show "((cur @ [c], cs), (cur, c # cs)) \<in> measure (\<lambda>(cur, s). length s)"
    by simp
qed

definition split_delim :: "string \<Rightarrow> string list" where
  "split_delim s = split_from [] s"

section \<open>The reassembler: dominant run of a paragraph\<close>

text \<open>
  \<open>hasMeaningfulContent\<close> tests \<open>/[^\s_]/\<close>: some character is neither white space
  nor an underscore.
\<close>

definition hasMeaningfulContent :: "string \<Rightarrow> bool" where
  "hasMeaningfulContent text = list_ex (\<lambda>c. \<not> js_whitespace c \<and> c \<noteq> CHR ''_'') text"

text \<open>
  A text run (\<open>w:t\<close> of a DOCX part, \<open>a:t\<close> of a PPTX slide) with its text and the two
  attributes the reassembler writes. A paragraph is the list of its runs in document
  order; a run is named by its position in that list, which stands for the identity of
  the DOM node.
\<close>

record TextNode =
  textContent :: string
  xml_space_preserve :: bool
  data_translated :: bool

text \<open>
  The search for the dominant node among the candidates: \<open>maxLen\<close> starts at \<open>-1\<close>,
  \<open>dominantNode\<close> at the first candidate, and a candidate replaces it only when it is
  strictly longer.
\<close>

definition dominant_step :: "TextNode list \<Rightarrow> int \<times> nat \<Rightarrow> nat \<Rightarrow> int \<times> nat" where
  "dominant_step p acc node =
     (let len = int (length (textContent (p ! node)))
      in if len > fst acc then (len, node) else acc)"

definition select_dominant :: "TextNode list \<Rightarrow> nat list \<Rightarrow> nat" where
  "select_dominant p candidateNodes =
     snd (foldl (dominant_step p) (-1, hd candidateNodes) candidateNodes)"

text \<open>
  The candidates of a paragraph: the runs not yet substituted are \<open>runNodes\<close>; those of
  them with meaningful content are the candidates, or all of them when none has.
\<close>

definition runNodes_of :: "TextNode list \<Rightarrow> nat list" where
  "runNodes_of p = filter (\<lambda>i. \<not> data_translated (p ! i)) [0..<length p]"

definition candidateNodes_of :: "TextNode list \<Rightarrow> nat list" where
  "candidateNodes_of p =
     (let runNodes = runNodes_of p;
          contentNodes = filter (\<lambda>i. hasMeaningfulContent (textContent (p ! i))) runNodes
      in if length contentNodes > 0 then contentNodes else runNodes)"

text \<open>Pass 1 on one run: an exact match of its trimmed text is substituted.\<close>

definition pass1_node :: "(string \<rightharpoonup> string) \<Rightarrow> TextNode \<Rightarrow> TextNode" where
  "pass1_node translationMap node =
     (let key = trim (textContent node)
      in case translationMap key of
           Some t \<Rightarrow> if key \<noteq> [] then
                        node\<lparr>textContent := t, xml_space_preserve := True, data_translated := True\<rparr>
                     else node
         | None \<Rightarrow> node)"

text \<open>
  Pass 2 on one paragraph: with more than one run left and the trimmed concatenation of
  their texts a key of the map, the dominant run takes the translation and every other
  run left is emptied.
\<close>

definition clear_others :: "nat \<Rightarrow> nat list \<Rightarrow> TextNode list \<Rightarrow> TextNode list" where
  "clear_others dominantNode runNodes p =
     fold (\<lambda>node q. if node \<noteq> dominantNode
                     then q[node := (q ! node)\<lparr>textContent := [], data_translated := True\<rparr>]
                     else q) runNodes p"

definition pass2_paragraph :: "(string \<rightharpoonup> string) \<Rightarrow> TextNode list \<Rightarrow> TextNode list" where
  "pass2_paragraph translationMap p =
     (let runNodes = runNodes_of p
      in if length runNodes \<le> 1 then p
         else
           let fullText = concat (map (\<lambda>i. textContent (p ! i)) runNodes);
               trimmedFull = trim fullText
           in case translationMap trimmedFull of
                None \<Rightarrow> p
              | Some translated \<Rightarrow>
                  let dominantNode = select_dominant p (candidateNodes_of p);
                      p1 = p[dominantNode := (p ! dominantNode)
                             \<lparr>textContent := translated, xml_space_preserve := True,
                              data_translated := True\<rparr>]
                  in clear_others dominantNode runNodes p1)"

definition reassemble_paragraph :: "(string \<rightharpoonup> string) \<Rightarrow> TextNode list \<Rightarrow> TextNode list" where
  "reassemble_paragraph translationMap p =
     pass2_paragraph translationMap (map (pass1_node translationMap) p)"

definition fresh_run :: "string \<Rightarrow> TextNode" where
  "fresh_run t = \<lparr>textContent = t, xml_space_preserve = False, data_translated = False\<rparr>"

text \<open>The paragraph of the example: three fresh runs.\<close>

definition hello_world_runs :: "TextNode list" where
  "hello_world_runs = [fresh_run ''Hello '', fresh_run ''world'', fresh_run ''!!!'']"

section \<open>The data model\<close>

datatype SegStatus = SegPending | SegTranslating | SegCompleted | SegWarning

datatype JobStatus = JobIdle | JobQueued | JobProcessing | JobCompleted | JobError

record Segment =
  seg_id :: string
  seg_index :: nat
  original :: string
  translated :: string
  seg_status :: SegStatus
  warningMessage :: "string option"
  pageNumber :: "int option"

record PageRange =
  range_start :: int
  range_end :: int

record FileJob =
  job_id :: string
  job_name :: string
  job_type :: string
  job_size :: nat
  job_status :: JobStatus
  progress :: int
  segments :: "Segment list"
  htmlContent :: string
  sourceLang :: string
  targetLang :: string
  pageCount :: "int option"
  selectedRange :: "PageRange option"

text \<open>
  The messages of the event feed, each with the fields of its payload:
  \<open>FILE_PROGRESS fileId progress status selectedRange\<close>,
  \<open>SEGMENT_TRANSLATION fileId segmentId index translated original status\<close>,
  \<open>SEGMENT_WARNING fileId segmentId index message\<close>, \<open>FILE_COMPLETE fileId job\<close>
  (the job as it is when the message is sent).
\<close>

datatype WebSocketMessage =
    BATCH_INIT string
  | FILE_READY string string FileJob
  | FILE_PROGRESS string int "JobStatus option" "PageRange option"
  | SEGMENT_TRANSLATION string string nat string string "SegStatus option"
  | SEGMENT_WARNING string string nat string
  | FILE_COMPLETE string FileJob
  | BATCH_COMPLETE string

section \<open>The translation client\<close>

text \<open>
  What the remote model does is an input of the program. An attempt either answers, with
  \<open>response.text\<close> present or not, or throws. Of a thrown value the handler reads the
  three places an HTTP status can stand in, the message, and the JSON text of the whole
  value; a status place holds nothing, a number or a string.
\<close>

datatype jsval = JUndefined | JNum int | JStr string

record ApiError =
  err_status :: jsval
  err_response_status :: jsval
  err_body_error_code :: jsval
  err_message :: "string option"
  err_json :: string

datatype Outcome = Response "string option" | Failure ApiError

text \<open>
  What \<open>translateTextSegment\<close> throws: the value caught from the remote call, or the
  error of the line after the loop.
\<close>

datatype Thrown = ApiFailure ApiError | MaxRetriesExceeded

text \<open>
  The environment: \<open>remote n targetLang text\<close> is the outcome of the \<open>n\<close>-th network
  call of the run when it asks for \<open>text\<close> in \<open>targetLang\<close> (the prompt is a fixed
  template around the two), and \<open>random n\<close> is the \<open>n\<close>-th value of \<open>Math.random()\<close>.
  The delays of the client are exact numbers; the rounding of double precision
  arithmetic is modelled where the scheduler computes a percentage.
\<close>

record Env =
  remote :: "nat \<Rightarrow> string \<Rightarrow> string \<Rightarrow> Outcome"
  random :: "nat \<Rightarrow> rat"

text \<open>
  What a run leaves in the world: the messages broadcast, the number of network calls
  made, the delays waited for (milliseconds), the number of random values drawn.
\<close>

record World =
  events :: "WebSocketMessage list"
  net_calls :: nat
  sleeps :: "rat list"
  rand_draws :: nat

definition truthy :: "jsval \<Rightarrow> bool" where
  "truthy v = (case v of JUndefined \<Rightarrow> False | JNum n \<Rightarrow> n \<noteq> 0 | JStr s \<Rightarrow> s \<noteq> [])"

definition js_or :: "jsval \<Rightarrow> jsval \<Rightarrow> jsval" where
  "js_or a b = (if truthy a then a else b)"

definition errorCode :: "ApiError \<Rightarrow> jsval" where
  "errorCode error =
     js_or (js_or (err_status error) (err_response_status error)) (err_body_error_code error)"

definition errorMessage :: "ApiError \<Rightarrow> string" where
  "errorMessage error =
     (case err_message error of
        Some m \<Rightarrow> if m \<noteq> [] then m else err_json error
      | None \<Rightarrow> err_json error)"

definition isRateLimit :: "ApiError \<Rightarrow> bool" where
  "isRateLimit error =
     (errorCode error = JNum 429 \<or> js_includes (errorMessage error) ''429''
      \<or> js_includes (errorMessage error) ''quota''
      \<or> js_includes (errorMessage error) ''RESOURCE_EXHAUSTED'')"

definition isServerOverload :: "ApiError \<Rightarrow> bool" where
  "isServerOverload error =
     (errorCode error = JNum 503 \<or> js_includes (errorMessage error) ''503'')"

definition MAX_RETRIES :: nat where
  "MAX_RETRIES = 5"

text \<open>\<open>response.text?.trim() || text\<close>.\<close>

definition response_text :: "string option \<Rightarrow> string \<Rightarrow> string" where
  "response_text t text =
     (case t of None \<Rightarrow> text | Some r \<Rightarrow> if trim r \<noteq> [] then trim r else text)"

definition backoffTime :: "Env \<Rightarrow> nat \<Rightarrow> nat \<Rightarrow> rat" where
  "backoffTime env attempt draw = 10000 * 2 ^ attempt + random env draw * 2000"

text \<open>The retry loop, from the value \<open>attempt\<close> of its counter on.\<close>

function translate_attempts ::
  "Env \<Rightarrow> string \<Rightarrow> string \<Rightarrow> nat \<Rightarrow> World \<Rightarrow> (Thrown + string) \<times> World" where
  "translate_attempts env text lang attempt w =
     (if attempt < MAX_RETRIES then
        (let w1 = w\<lparr>net_calls := Suc (net_calls w)\<rparr>
         in case remote env (net_calls w) lang text of
              Response t \<Rightarrow> (Inr (response_text t text), w1)
            | Failure error \<Rightarrow>
                if (isRateLimit error \<or> isServerOverload error) \<and> attempt < MAX_RETRIES - 1
                then translate_attempts env text lang (attempt + 1)
                       (w1\<lparr>sleeps := sleeps w1 @ [backoffTime env attempt (rand_draws w1)],
                           rand_draws := Suc (rand_draws w1)\<rparr>)
                else (Inl (ApiFailure error), w1))
      else (Inl MaxRetriesExceeded, w))"
  by pat_completeness auto
termination
  by (relation "measure (\<lambda>(env, text, lang, attempt, w). MAX_RETRIES - attempt)") auto

declare translate_attempts.simps [simp del]

definition translateTextSegment ::
  "Env \<Rightarrow> string \<Rightarrow> string \<Rightarrow> World \<Rightarrow> (Thrown + string) \<times> World" where
  "translateTextSegment env text lang w =
     (if text = [] \<or> length (trim text) = 0 then (Inr text, w)
      else translate_attempts env text lang 0 w)"

section \<open>The batch scheduler\<close>

text \<open>
  While \<open>processFile\<close> runs it holds one job and writes to the world. The segments of
  the job are objects shared between \<open>job.segments\<close>, \<open>segmentsToProcess\<close> and
  \<open>currentBatch\<close>: the model keeps them in the job's list alone and lets the other two
  hold positions in that list, so that a write through any of them is a write to the
  job's segment.
\<close>

record Proc =
  job :: FileJob
  world :: World

definition broadcast :: "WebSocketMessage \<Rightarrow> Proc \<Rightarrow> Proc" where
  "broadcast msg st = st\<lparr>world := (world st)\<lparr>events := events (world st) @ [msg]\<rparr>\<rparr>"

definition segment_at :: "Proc \<Rightarrow> nat \<Rightarrow> Segment" where
  "segment_at st i = segments (job st) ! i"

definition update_segment :: "nat \<Rightarrow> (Segment \<Rightarrow> Segment) \<Rightarrow> Proc \<Rightarrow> Proc" where
  "update_segment i f st =
     st\<lparr>job := (job st)\<lparr>segments := (segments (job st))[i := f (segments (job st) ! i)]\<rparr>\<rparr>"

definition sleep :: "rat \<Rightarrow> Proc \<Rightarrow> Proc" where
  "sleep ms st = st\<lparr>world := (world st)\<lparr>sleeps := sleeps (world st) @ [ms]\<rparr>\<rparr>"

text \<open>\<open>Math.round\<close>: the nearest integer, a half rounded up.\<close>

definition js_round :: "rat \<Rightarrow> int" where
  "js_round x = \<lfloor>x + 1 / 2\<rfloor>"

subsection \<open>Double precision arithmetic\<close>

text \<open>
  A JavaScript number is a binary64 value: \<open>/\<close> and \<open>*\<close> give the exact quotient or product
  rounded to the nearest number with a significand of 53 bits, and of two nearest ones
  the one with the even significand. The nearest integer, a half to the even one:
\<close>

definition round_ties_even :: "rat \<Rightarrow> int" where
  "round_ties_even r =
     (let f = \<lfloor>r\<rfloor>; d = r - of_int f
      in if d < 1 / 2 then f else if 1 / 2 < d then f + 1 else if even f then f else f + 1)"

text \<open>
  The binade of a positive number \<open>x\<close> is the exponent \<open>e\<close> with \<open>2 ^ e \<le> x < 2 ^ (e + 1)\<close>, found by
  halving a number from 2 on and by doubling a number below 1.
\<close>

function binade_up :: "rat \<Rightarrow> nat" where
  "binade_up x = (if x < 2 then 0 else Suc (binade_up (x / 2)))"
  by pat_completeness auto
termination
proof (relation "measure (\<lambda>x. nat \<lceil>x\<rceil>)")
  show "wf (measure (\<lambda>x :: rat. nat \<lceil>x\<rceil>))" by simp
next
  fix x :: rat assume "\<not> x < 2"
  then have x: "2 \<le> x" by simp
  then have "x / 2 \<le> x - 1" by simp
  then have "\<lceil>x / 2\<rceil> \<le> \<lceil>x - 1\<rceil>" by (rule ceiling_mono)
  then have "\<lceil>x / 2\<rceil> < \<lceil>x\<rceil>" by simp
  moreover have "0 < \<lceil>x\<rceil>" using x by (simp add: ceiling_less_iff not_less [symmetric] less_ceiling_iff)
  ultimately show "(x / 2, x) \<in> measure (\<lambda>x. nat \<lceil>x\<rceil>)" by simp
qed

function binade_down :: "rat \<Rightarrow> nat" where
  "binade_down x = (if x \<le> 0 \<or> 1 \<le> x then 0 else Suc (binade_down (2 * x)))"
  by pat_completeness auto
termination
proof (relation "measure (\<lambda>x. nat \<lceil>1 / x\<rceil>)")
  show "wf (measure (\<lambda>x :: rat. nat \<lceil>1 / x\<rceil>))" by simp
next
  fix x :: rat assume "\<not> (x \<le> 0 \<or> 1 \<le> x)"
  then have x: "0 < x" "x < 1" by simp_all
  define y where "y = 1 / x"
  have y: "1 < y" using x by (simp add: y_def)
  then have "1 < \<lceil>y\<rceil>" by (simp add: less_ceiling_iff)
  then have c2: "2 \<le> \<lceil>y\<rceil>" by simp
  have "y \<le> of_int \<lceil>y\<rceil>" by (rule le_of_int_ceiling)
  moreover have "(2 :: rat) \<le> of_int \<lceil>y\<rceil>" using c2 by linarith
  ultimately have "y / 2 \<le> of_int \<lceil>y\<rceil> - 1" by linarith
  then have "y / 2 \<le> of_int (\<lceil>y\<rceil> - 1)" by simp
  then have "\<lceil>y / 2\<rceil> \<le> \<lceil>y\<rceil> - 1" by (simp only: ceiling_le_iff)
  then have h: "nat \<lceil>y / 2\<rceil> < nat \<lceil>y\<rceil>" using c2 by linarith
  have e: "1 / (2 * x) = y / 2" by (simp add: y_def)
  have "nat \<lceil>1 / (2 * x)\<rceil> < nat \<lceil>1 / x\<rceil>" using h by (simp only: e y_def)
  then show "(2 * x, x) \<in> measure (\<lambda>x. nat \<lceil>1 / x\<rceil>)" by (simp only: in_measure)
qed

declare binade_up.simps [simp del] binade_down.simps [simp del]

definition binade :: "rat \<Rightarrow> int" where
  "binade x = (if 1 \<le> x then int (binade_up x) else - int (binade_down x))"

text \<open>
  The double nearest to an exact number: the number is measured in units of the last
  place of its binade and rounded to a whole number of them. The range of the exponent
  is not bounded: the quotients and products of the scheduler lie between \<open>1 / 2 ^ 32\<close>
  and 100, far from an overflow and from the subnormal numbers.
\<close>

definition to_double_pos :: "rat \<Rightarrow> rat" where
  "to_double_pos x =
     (let ulp = 2 powi (binade x - 52) in ulp * of_int (round_ties_even (x / ulp)))"

definition to_double :: "rat \<Rightarrow> rat" where
  "to_double x =
     (if x = 0 then 0 else if x < 0 then - to_double_pos (- x) else to_double_pos x)"

definition js_div :: "rat \<Rightarrow> rat \<Rightarrow> rat" where
  "js_div a b = to_double (a / b)"

definition js_mul :: "rat \<Rightarrow> rat \<Rightarrow> rat" where
  "js_mul a b = to_double (a * b)"

definition MAX_BATCH_CHARS :: nat where
  "MAX_BATCH_CHARS = 2000"

definition DELIMITER :: string where
  "DELIMITER = '' ||| ''"

text \<open>
  The translation scope: with a selected range and a page count that is set and not
  zero, the positions of the segments whose page lies in the range widened by one page on
  each side; all positions otherwise.
\<close>

definition in_buffer :: "int \<Rightarrow> int \<Rightarrow> Segment \<Rightarrow> bool" where
  "in_buffer bufferStart bufferEnd s =
     (case pageNumber s of
        None \<Rightarrow> False
      | Some n \<Rightarrow> n \<ge> bufferStart \<and> n \<le> bufferEnd)"

definition segmentsToProcess_of :: "FileJob \<Rightarrow> nat list" where
  "segmentsToProcess_of j =
     (case selectedRange j of
        None \<Rightarrow> [0..<length (segments j)]
      | Some r \<Rightarrow>
          (case pageCount j of
             None \<Rightarrow> [0..<length (segments j)]
           | Some pc \<Rightarrow>
               if pc = 0 then [0..<length (segments j)]
               else
                 let bufferStart = max 1 (range_start r - 1);
                     bufferEnd = min pc (range_end r + 1)
                 in filter (\<lambda>i. in_buffer bufferStart bufferEnd (segments j ! i))
                      [0..<length (segments j)]))"

text \<open>
  The start of a flush: the segment that closed the batch is set to \<open>translating\<close>, and
  a message with status \<open>translating\<close> goes out for every segment of the batch.
\<close>

definition announce_translating :: "string \<Rightarrow> Proc \<Rightarrow> nat \<Rightarrow> Proc" where
  "announce_translating fileId st s =
     broadcast (SEGMENT_TRANSLATION fileId (seg_id (segment_at st s)) (seg_index (segment_at st s))
                  [] (original (segment_at st s)) (Some SegTranslating)) st"

definition flush_begin :: "string \<Rightarrow> nat list \<Rightarrow> Proc \<Rightarrow> Proc" where
  "flush_begin fileId currentBatch st =
     (let segment = last currentBatch;
          st1 = update_segment segment (\<lambda>s. s\<lparr>seg_status := SegTranslating\<rparr>) st
      in foldl (announce_translating fileId) st1 currentBatch)"

text \<open>The body of the loop over the batch when the call returned \<open>translatedBlock\<close>.\<close>

definition part_text :: "string list \<Rightarrow> nat \<Rightarrow> string" where
  "part_text translatedParts index =
     (if index < length translatedParts \<and> translatedParts ! index \<noteq> []
      then trim (translatedParts ! index) else [])"

definition apply_translation :: "string \<Rightarrow> string list \<Rightarrow> Proc \<Rightarrow> nat \<times> nat \<Rightarrow> Proc" where
  "apply_translation fileId translatedParts st bi =
     (let batchSeg = fst bi; index = snd bi;
          trans = part_text translatedParts index;
          st1 = update_segment batchSeg
                  (\<lambda>s. s\<lparr>translated := (if trans \<noteq> [] then trans else original s),
                         seg_status := SegCompleted\<rparr>) st
      in broadcast (SEGMENT_TRANSLATION fileId (seg_id (segment_at st1 batchSeg))
                      (seg_index (segment_at st1 batchSeg)) (translated (segment_at st1 batchSeg))
                      (original (segment_at st1 batchSeg)) None) st1)"

text \<open>The body of the loop over the batch when the call threw.\<close>

definition mark_warning :: "string \<Rightarrow> Proc \<Rightarrow> nat \<Rightarrow> Proc" where
  "mark_warning fileId st batchSeg =
     (let st1 = update_segment batchSeg
                  (\<lambda>s. s\<lparr>seg_status := SegWarning,
                         warningMessage := Some ''Translation failed''\<rparr>) st
      in broadcast (SEGMENT_WARNING fileId (seg_id (segment_at st1 batchSeg))
                      (seg_index (segment_at st1 batchSeg)) ''Translation failed'') st1)"

text \<open>
  The call of a flush: the originals joined by the delimiter, the fixed wait of six
  seconds, and the translation client on the joined text.
\<close>

definition textToTranslate_of :: "Proc \<Rightarrow> nat list \<Rightarrow> string" where
  "textToTranslate_of st currentBatch =
     js_join DELIMITER (map (\<lambda>s. original (segment_at st s)) currentBatch)"

definition flush_call :: "Env \<Rightarrow> nat list \<Rightarrow> Proc \<Rightarrow> (Thrown + string) \<times> Proc" where
  "flush_call env currentBatch st =
     (let textToTranslate = textToTranslate_of st currentBatch;
          st1 = sleep 6000 st;
          r = translateTextSegment env textToTranslate (targetLang (job st1)) (world st1)
      in (fst r, st1\<lparr>world := snd r\<rparr>))"

definition flush_end :: "string \<Rightarrow> nat list \<Rightarrow> (Thrown + string) \<times> Proc \<Rightarrow> Proc" where
  "flush_end fileId currentBatch r =
     (case fst r of
        Inr translatedBlock \<Rightarrow>
          foldl (apply_translation fileId (split_delim translatedBlock)) (snd r)
            (zip currentBatch [0..<length currentBatch])
      | Inl error \<Rightarrow> foldl (mark_warning fileId) (snd r) currentBatch)"

text \<open>
  The percentage \<open>Math.round((completedWorkSegments / totalWorkSegments) * 100)\<close>. The two
  counts are lengths of arrays, integers below \<open>2 ^ 32\<close>, which a double holds exactly. The
  quotient and the product are rounded to a double each; \<open>Math.round\<close> itself is exact.
  The scheduler computes it after a batch only, so with a scope that is not empty.
\<close>

definition progress_of :: "nat \<Rightarrow> nat \<Rightarrow> int" where
  "progress_of completedWorkSegments totalWorkSegments =
     js_round (js_mul (js_div (of_nat completedWorkSegments) (of_nat totalWorkSegments)) 100)"

text \<open>
  One flush: its start, its call, its end, and the progress message computed from the
  number of segments attempted so far, this batch included.
\<close>

definition flushBatch :: "Env \<Rightarrow> string \<Rightarrow> nat \<Rightarrow> nat \<Rightarrow> nat list \<Rightarrow> Proc \<Rightarrow> Proc" where
  "flushBatch env fileId totalWorkSegments completedWorkSegments currentBatch st =
     (let st1 = flush_end fileId currentBatch
                  (flush_call env currentBatch (flush_begin fileId currentBatch st))
      in broadcast (FILE_PROGRESS fileId
                      (progress_of (completedWorkSegments + length currentBatch) totalWorkSegments)
                      None None) st1)"

text \<open>
  The loop over the scope. Its arguments are the positions still to visit, the current
  batch with its character count, and the number of segments attempted. The segment
  visited is the last one when nothing is left behind it.
\<close>

fun batch_loop ::
  "Env \<Rightarrow> string \<Rightarrow> nat \<Rightarrow> nat list \<Rightarrow> nat list \<Rightarrow> nat \<Rightarrow> nat \<Rightarrow> Proc \<Rightarrow> Proc" where
  "batch_loop env fileId totalWork [] currentBatch currentBatchCharCount completed st = st"
| "batch_loop env fileId totalWork (segment # rest) currentBatch currentBatchCharCount completed st =
     (let batch = currentBatch @ [segment];
          charCount = currentBatchCharCount + length (original (segment_at st segment));
          isBatchFull = charCount \<ge> MAX_BATCH_CHARS;
          isLastSegment = (rest = [])
      in if isBatchFull \<or> isLastSegment
         then batch_loop env fileId totalWork rest [] 0 (completed + length batch)
                (flushBatch env fileId totalWork completed batch st)
         else batch_loop env fileId totalWork rest batch charCount completed st)"

definition complete_job :: "string \<Rightarrow> Proc \<Rightarrow> Proc" where
  "complete_job fileId st =
     (let st1 = st\<lparr>job := (job st)\<lparr>job_status := JobCompleted, progress := 100\<rparr>\<rparr>
      in broadcast (FILE_COMPLETE fileId (job st1)) st1)"

text \<open>
  \<open>processFile\<close> on the job it found, up to the completion message (the check for the
  completion of the whole upload batch follows in \<open>processFile\<close> below).
\<close>

definition processJob :: "Env \<Rightarrow> string \<Rightarrow> Proc \<Rightarrow> Proc" where
  "processJob env fileId st =
     (let st1 = broadcast (FILE_PROGRESS fileId 0 (Some JobProcessing) None)
                  (st\<lparr>job := (job st)\<lparr>job_status := JobProcessing\<rparr>\<rparr>);
          segmentsToProcess = segmentsToProcess_of (job st1);
          totalWorkSegments = length segmentsToProcess
      in if totalWorkSegments = 0 then complete_job fileId st1
         else complete_job fileId
                (batch_loop env fileId totalWorkSegments segmentsToProcess [] 0 0 st1))"

section \<open>The backend\<close>

text \<open>
  The jobs and the stored files by file id, in insertion order. The uploaded file is a
  value of a type the model leaves open.
\<close>

record 'file Backend =
  jobs :: "(string \<times> FileJob) list"
  fileStorage :: "(string \<times> 'file) list"
  batchId :: string
  bworld :: World

definition checkBatchCompletion :: "'file Backend \<Rightarrow> 'file Backend" where
  "checkBatchCompletion b =
     (let allComplete = list_all (\<lambda>j. job_status j = JobCompleted \<or> job_status j = JobError
                                      \<or> job_status j = JobIdle) (map snd (jobs b))
      in if allComplete \<and> length (jobs b) > 0
         then b\<lparr>bworld := (bworld b)\<lparr>events := events (bworld b) @ [BATCH_COMPLETE (batchId b)]\<rparr>\<rparr>
         else b)"

definition processFile :: "Env \<Rightarrow> string \<Rightarrow> 'file Backend \<Rightarrow> 'file Backend" where
  "processFile env fileId b =
     (case map_of (jobs b) fileId of
        None \<Rightarrow> b
      | Some j \<Rightarrow>
          let st = processJob env fileId \<lparr>job = j, world = bworld b\<rparr>
          in checkBatchCompletion
               (b\<lparr>jobs := map (\<lambda>(k, v). if k = fileId then (k, job st) else (k, v)) (jobs b),
                  bworld := world st\<rparr>))"

text \<open>
  The segments \<open>generateDownload\<close> hands to the reassembler, and \<open>generateDownload\<close>
  itself. \<open>reassembleFile\<close> is a parameter: it gives the output file, or nothing when it
  throws.
\<close>

definition segmentsToDownload_of :: "FileJob \<Rightarrow> Segment list" where
  "segmentsToDownload_of j =
     (case selectedRange j of
        None \<Rightarrow> segments j
      | Some r \<Rightarrow>
          filter (\<lambda>s. case pageNumber s of
                        None \<Rightarrow> True
                      | Some n \<Rightarrow> n \<ge> range_start r \<and> n \<le> range_end r) (segments j))"

definition generateDownload ::
  "('file \<Rightarrow> Segment list \<Rightarrow> 'blob option) \<Rightarrow> string \<Rightarrow> 'file Backend \<Rightarrow> 'blob option" where
  "generateDownload reassembleFile fileId b =
     (case map_of (jobs b) fileId of
        None \<Rightarrow> None
      | Some j \<Rightarrow>
          (case map_of (fileStorage b) fileId of
             None \<Rightarrow> None
           | Some originalFile \<Rightarrow> reassembleFile originalFile (segmentsToDownload_of j)))"

section \<open>Notions used in the statements\<close>

text \<open>
  The two halves of \<open>trim\<close>, a string of white space only, and a string in which three
  bars in a row do not occur.
\<close>

definition lstrip :: "string \<Rightarrow> string" where
  "lstrip s = dropWhile js_whitespace s"

definition rstrip :: "string \<Rightarrow> string" where
  "rstrip s = rev (dropWhile js_whitespace (rev s))"

definition blank :: "string \<Rightarrow> bool" where
  "blank s = list_all js_whitespace s"

definition no_bars :: "string \<Rightarrow> bool" where
  "no_bars s = (\<not> js_includes s ''|||'')"

text \<open>The condition under which a caught failure may be retried.\<close>

definition retryable :: "ApiError \<Rightarrow> bool" where
  "retryable error = (isRateLimit error \<or> isServerOverload error)"

text \<open>
  The batches the loop forms: \<open>batches_from segs rest currentBatch count\<close> lists the
  batches flushed while the loop visits the positions \<open>rest\<close>, entered with the batch
  \<open>currentBatch\<close> of \<open>count\<close> characters. \<open>flush_all\<close> flushes a list of batches in
  order, counting the segments attempted.
\<close>

fun batches_from :: "Segment list \<Rightarrow> nat list \<Rightarrow> nat list \<Rightarrow> nat \<Rightarrow> nat list list" where
  "batches_from segs [] currentBatch currentBatchCharCount = []"
| "batches_from segs (segment # rest) currentBatch currentBatchCharCount =
     (let batch = currentBatch @ [segment];
          charCount = currentBatchCharCount + length (original (segs ! segment))
      in if charCount \<ge> MAX_BATCH_CHARS \<or> rest = []
         then batch # batches_from segs rest [] 0
         else batches_from segs rest batch charCount)"

fun flush_all :: "Env \<Rightarrow> string \<Rightarrow> nat \<Rightarrow> nat \<Rightarrow> nat list list \<Rightarrow> Proc \<Rightarrow> Proc" where
  "flush_all env fileId totalWork completed [] st = st"
| "flush_all env fileId totalWork completed (b # bs) st =
     flush_all env fileId totalWork (completed + length b) bs
       (flushBatch env fileId totalWork completed b st)"

text \<open>The state in which the loop of \<open>processFile\<close> is entered.\<close>

definition started :: "string \<Rightarrow> Proc \<Rightarrow> Proc" where
  "started fileId st =
     broadcast (FILE_PROGRESS fileId 0 (Some JobProcessing) None)
       (st\<lparr>job := (job st)\<lparr>job_status := JobProcessing\<rparr>\<rparr>)"

text \<open>
  The batches of the run of a job, and the state in which the \<open>k\<close>-th of them is flushed.
\<close>

definition run_batches :: "Proc \<Rightarrow> nat list list" where
  "run_batches st = batches_from (segments (job st)) (segmentsToProcess_of (job st)) [] 0"

definition before_batch :: "Env \<Rightarrow> string \<Rightarrow> Proc \<Rightarrow> nat \<Rightarrow> Proc" where
  "before_batch env fileId st k =
     flush_all env fileId (length (segmentsToProcess_of (job st))) 0 (take k (run_batches st))
       (started fileId st)"

text \<open>The number of segments attempted after each batch of a list, from \<open>completed\<close> on.\<close>

fun attempted_after :: "nat \<Rightarrow> nat list list \<Rightarrow> nat list" where
  "attempted_after completed [] = []"
| "attempted_after completed (b # bs) =
     (completed + length b) # attempted_after (completed + length b) bs"

text \<open>
  The state of a segment after the start of a flush, after a flush whose call returned
  parts, and after a flush whose call threw; the message sent for it at the start.
\<close>

definition begun :: "nat list \<Rightarrow> Segment list \<Rightarrow> Segment list" where
  "begun b sg = sg[last b := (sg ! last b)\<lparr>seg_status := SegTranslating\<rparr>]"

definition completed_with :: "string list \<Rightarrow> nat \<Rightarrow> Segment \<Rightarrow> Segment" where
  "completed_with parts index s =
     s\<lparr>translated := (if part_text parts index \<noteq> [] then part_text parts index else original s),
       seg_status := SegCompleted\<rparr>"

definition warned :: "Segment \<Rightarrow> Segment" where
  "warned s = s\<lparr>seg_status := SegWarning, warningMessage := Some ''Translation failed''\<rparr>"

definition translating_message :: "string \<Rightarrow> Segment \<Rightarrow> WebSocketMessage" where
  "translating_message fileId s =
     SEGMENT_TRANSLATION fileId (seg_id s) (seg_index s) [] (original s) (Some SegTranslating)"

text \<open>
  The progress of a job as its event feed reports it: the value of every progress
  message, and the progress of the job carried by a completion message.
\<close>

fun progress_reported :: "WebSocketMessage \<Rightarrow> int list" where
  "progress_reported (FILE_PROGRESS fileId p st sel) = [p]"
| "progress_reported (FILE_COMPLETE fileId j) = [progress j]"
| "progress_reported m = []"

definition progress_feed :: "WebSocketMessage list \<Rightarrow> int list" where
  "progress_feed evs = concat (map progress_reported evs)"

text \<open>
  The percentage as the specification words it, \<open>round (100 * attempted / total)\<close>, in
  exact arithmetic.
\<close>

definition spec_progress :: "nat \<Rightarrow> nat \<Rightarrow> int" where
  "spec_progress attempted totalInScope = js_round (100 * of_nat attempted / of_nat totalInScope)"

section \<open>Examples\<close>

text \<open>A segment as the tokenizer creates it, and a job as \<open>startProcessing\<close> queues it.\<close>

definition fresh_segment :: "string \<Rightarrow> nat \<Rightarrow> string \<Rightarrow> int option \<Rightarrow> Segment" where
  "fresh_segment segId i t page =
     \<lparr>seg_id = segId, seg_index = i, original = t, translated = [], seg_status = SegPending,
      warningMessage = None, pageNumber = page\<rparr>"

definition queued_job :: "Segment list \<Rightarrow> int option \<Rightarrow> PageRange option \<Rightarrow> FileJob" where
  "queued_job segs pc sel =
     \<lparr>job_id = ''f'', job_name = ''a.pdf'', job_type = ''application/pdf'', job_size = 0,
      job_status = JobQueued, progress = 0, segments = segs, htmlContent = [],
      sourceLang = ''en'', targetLang = ''fr'', pageCount = pc, selectedRange = sel\<rparr>"

text \<open>A job of twenty pages with the range 5 to 15 selected.\<close>

definition range_job :: FileJob where
  "range_job = queued_job
     [fresh_segment ''s0'' 0 ''three'' (Some 3), fresh_segment ''s1'' 1 ''four'' (Some 4),
      fresh_segment ''s2'' 2 ''five'' (Some 5), fresh_segment ''s3'' 3 ''sixteen'' (Some 16),
      fresh_segment ''s4'' 4 ''seventeen'' (Some 17), fresh_segment ''s5'' 5 ''nowhere'' None]
     (Some 20) (Some \<lparr>range_start = 5, range_end = 15\<rparr>)"

text \<open>The same range on a job whose segments all lie outside the widened range.\<close>

definition outside_job :: FileJob where
  "outside_job = queued_job
     [fresh_segment ''s0'' 0 ''one'' (Some 1), fresh_segment ''s1'' 1 ''nowhere'' None]
     (Some 20) (Some \<lparr>range_start = 5, range_end = 15\<rparr>)"

definition empty_world :: World where
  "empty_world = \<lparr>events = [], net_calls = 0, sleeps = [], rand_draws = 0\<rparr>"

text \<open>Two failures of the remote call, and three environments.\<close>

definition server_error :: ApiError where
  "server_error =
     \<lparr>err_status = JNum 500, err_response_status = JUndefined, err_body_error_code = JUndefined,
      err_message = Some ''Internal error'', err_json = ''{}''\<rparr>"

definition throttled :: ApiError where
  "throttled =
     \<lparr>err_status = JNum 429, err_response_status = JUndefined, err_body_error_code = JUndefined,
      err_message = Some ''Too Many Requests'', err_json = ''{}''\<rparr>"

definition failing_env :: Env where
  "failing_env = \<lparr>remote = (\<lambda>n lang t. Failure server_error), random = (\<lambda>n. 1 / 2)\<rparr>"

definition echo_env :: Env where
  "echo_env = \<lparr>remote = (\<lambda>n lang t. Response (Some t)), random = (\<lambda>n. 1 / 2)\<rparr>"

definition flaky_env :: Env where
  "flaky_env =
     \<lparr>remote = (\<lambda>n lang t. if n < 2 then Failure throttled else Response (Some ''Bonjour'')),
      random = (\<lambda>n. 1 / 2)\<rparr>"

definition outside_state :: Proc where
  "outside_state = \<lparr>job = outside_job, world = empty_world\<rparr>"

text \<open>A job of two short segments without pages, and the state in which it is processed.\<close>

definition two_segment_job :: FileJob where
  "two_segment_job =
     queued_job [fresh_segment ''s0'' 0 ''A'' None, fresh_segment ''s1'' 1 ''B'' None] None None"

definition two_segment_state :: Proc where
  "two_segment_state = \<lparr>job = two_segment_job, world = empty_world\<rparr>"

text \<open>A job whose first segment fills a batch by itself.\<close>

definition long_job :: FileJob where
  "long_job =
     queued_job [fresh_segment ''s0'' 0 (replicate 2000 (CHR ''x'')) None,
                 fresh_segment ''s1'' 1 ''B'' None] None None"

definition long_state :: Proc where
  "long_state = \<lparr>job = long_job, world = empty_world\<rparr>"

text \<open>
  A job of forty segments of 87 characters: the twenty-third closes the first batch, the
  other seventeen make the second.
\<close>

definition ratio_segment :: "nat \<Rightarrow> Segment" where
  "ratio_segment i =
     fresh_segment (''seg-'' @ [char_of (48 + i div 10), char_of (48 + i mod 10)]) i
       (replicate 87 (CHR ''x'')) None"

definition ratio_job :: FileJob where
  "ratio_job = queued_job (map ratio_segment [0..<40]) None None"

definition ratio_state :: Proc where
  "ratio_state = \<lparr>job = ratio_job, world = empty_world\<rparr>"

text \<open>An environment that answers every call with one part, and a backend with one job.\<close>

definition short_env :: Env where
  "short_env = \<lparr>remote = (\<lambda>n lang t. Response (Some ''Un'')), random = (\<lambda>n. 1 / 2)\<rparr>"

definition range_backend :: "unit Backend" where
  "range_backend =
     \<lparr>jobs = [(''f'', range_job)], fileStorage = [(''f'', ())], batchId = ''batch-0'',
      bworld = empty_world\<rparr>"

text \<open>A job whose only segment ends with a space, as a text node before an inline element does.\<close>

definition hello_job :: FileJob where
  "hello_job = queued_job [fresh_segment ''s0'' 0 ''Hello '' None] None None"

definition hello_state :: Proc where
  "hello_state = \<lparr>job = hello_job, world = empty_world\<rparr>"

text \<open>A job whose only segment contains the delimiter.\<close>

definition bars_job :: FileJob where
  "bars_job = queued_job [fresh_segment ''s0'' 0 ''a ||| b'' None] None None"

definition bars_state :: Proc where
  "bars_state = \<lparr>job = bars_job, world = empty_world\<rparr>"

section \<open>Lemmas on the scheduler\<close>

subsection \<open>Effects of the primitives\<close>

lemma job_broadcast: "job (broadcast m st) = job st"
  by (simp add: broadcast_def)

lemma world_broadcast: "world (broadcast m st) = (world st)\<lparr>events := events (world st) @ [m]\<rparr>"
  by (simp add: broadcast_def)

lemma job_update_segment:
  "job (update_segment i f st) = (job st)\<lparr>segments := (segments (job st))[i := f (segments (job st) ! i)]\<rparr>"
  by (simp add: update_segment_def)

lemma world_update_segment: "world (update_segment i f st) = world st"
  by (simp add: update_segment_def)

lemma job_sleep: "job (sleep ms st) = job st"
  by (simp add: sleep_def)

lemma world_sleep: "world (sleep ms st) = (world st)\<lparr>sleeps := sleeps (world st) @ [ms]\<rparr>"
  by (simp add: sleep_def)

subsection \<open>Point updates folded over a list of positions\<close>

lemma foldl_update_length:
  "length (foldl (\<lambda>sg x. sg[pos x := upd x (sg ! pos x)]) sg xs) = length sg"
  by (induction xs arbitrary: sg) simp_all

lemma foldl_update_other:
  "i \<notin> pos ` set xs \<Longrightarrow> foldl (\<lambda>sg x. sg[pos x := upd x (sg ! pos x)]) sg xs ! i = sg ! i"
  by (induction xs arbitrary: sg) simp_all

lemma foldl_update_nth:
  "distinct (map pos xs) \<Longrightarrow> \<forall>x \<in> set xs. pos x < length sg \<Longrightarrow> k < length xs \<Longrightarrow>
   foldl (\<lambda>sg x. sg[pos x := upd x (sg ! pos x)]) sg xs ! pos (xs ! k) = upd (xs ! k) (sg ! pos (xs ! k))"
proof (induction xs arbitrary: sg k)
  case Nil
  then show ?case by simp
next
  case (Cons x xs)
  show ?case
  proof (cases k)
    case 0
    have "pos x \<notin> pos ` set xs" using Cons.prems(1) by simp
    then have "foldl (\<lambda>sg x. sg[pos x := upd x (sg ! pos x)]) (sg[pos x := upd x (sg ! pos x)]) xs ! pos x
               = (sg[pos x := upd x (sg ! pos x)]) ! pos x"
      by (rule foldl_update_other)
    with 0 Cons.prems(2) show ?thesis by simp
  next
    case (Suc k')
    have k': "k' < length xs" using Cons.prems(3) Suc by simp
    then have "xs ! k' \<in> set xs" by (rule nth_mem)
    then have "pos (xs ! k') \<in> pos ` set xs" by (rule imageI)
    moreover have "pos x \<notin> pos ` set xs" using Cons.prems(1) by simp
    ultimately have ne: "pos (xs ! k') \<noteq> pos x" by metis
    have d: "distinct (map pos xs)" using Cons.prems(1) by simp
    have "foldl (\<lambda>sg x. sg[pos x := upd x (sg ! pos x)]) (sg[pos x := upd x (sg ! pos x)]) xs ! pos (xs ! k')
          = upd (xs ! k') ((sg[pos x := upd x (sg ! pos x)]) ! pos (xs ! k'))"
      using Cons.prems(2,3) Suc by (intro Cons.IH [OF d]) simp_all
    with ne Suc show ?thesis by simp
  qed
qed

lemma foldl_update_map:
  "(\<And>x s. h (upd x s) = h s) \<Longrightarrow>
   map h (foldl (\<lambda>sg x. sg[pos x := upd x (sg ! pos x)]) sg xs) = map h sg"
proof (induction xs arbitrary: sg)
  case Nil
  then show ?case by simp
next
  case (Cons x xs)
  have "map h (sg[pos x := upd x (sg ! pos x)]) = map h sg"
  proof (cases "pos x < length sg")
    case True
    then have "(map h sg)[pos x := h (sg ! pos x)] = map h sg"
      by (metis list_update_id nth_map)
    then show ?thesis by (simp add: map_update Cons.prems)
  next
    case False
    then have "sg[pos x := upd x (sg ! pos x)] = sg"
      by (simp add: list_update_beyond)
    then show ?thesis by simp
  qed
  with Cons show ?case by simp
qed


subsection \<open>The loops over a batch\<close>

lemma announce_fold:
  "foldl (announce_translating fileId) st b =
     st\<lparr>world := (world st)\<lparr>events := events (world st)
        @ map (\<lambda>s. translating_message fileId (segment_at st s)) b\<rparr>\<rparr>"
proof (induction b rule: rev_induct)
  case Nil
  then show ?case by simp
next
  case (snoc x b)
  then show ?case
    by (simp add: announce_translating_def broadcast_def segment_at_def translating_message_def)
qed

lemma flush_begin_eq:
  "flush_begin fileId b st =
     (let st1 = update_segment (last b) (\<lambda>s. s\<lparr>seg_status := SegTranslating\<rparr>) st
      in st1\<lparr>world := (world st)\<lparr>events := events (world st)
           @ map (\<lambda>s. translating_message fileId (segment_at st1 s)) b\<rparr>\<rparr>)"
  by (simp add: flush_begin_def announce_fold Let_def world_update_segment)

lemma apply_translation_job:
  "job (foldl (apply_translation fileId parts) st xs) =
     (job st)\<lparr>segments := foldl (\<lambda>sg x. sg[fst x := completed_with parts (snd x) (sg ! fst x)])
                              (segments (job st)) xs\<rparr>"
proof (induction xs arbitrary: st)
  case Nil
  then show ?case by simp
next
  case (Cons x xs)
  have "job (apply_translation fileId parts st x) =
        (job st)\<lparr>segments := (segments (job st))[fst x := completed_with parts (snd x) (segments (job st) ! fst x)]\<rparr>"
    by (simp add: apply_translation_def Let_def job_broadcast job_update_segment completed_with_def)
  with Cons.IH [of "apply_translation fileId parts st x"] show ?case by simp
qed

lemma mark_warning_job:
  "job (foldl (mark_warning fileId) st xs) =
     (job st)\<lparr>segments := foldl (\<lambda>sg x. sg[x := warned (sg ! x)]) (segments (job st)) xs\<rparr>"
proof (induction xs arbitrary: st)
  case Nil
  then show ?case by simp
next
  case (Cons x xs)
  have "job (mark_warning fileId st x) =
        (job st)\<lparr>segments := (segments (job st))[x := warned (segments (job st) ! x)]\<rparr>"
    by (simp add: mark_warning_def Let_def job_broadcast job_update_segment warned_def)
  with Cons.IH [of "mark_warning fileId st x"] show ?case by simp
qed

lemma apply_translation_world:
  "net_calls (world (foldl (apply_translation fileId parts) st xs)) = net_calls (world st)
   \<and> sleeps (world (foldl (apply_translation fileId parts) st xs)) = sleeps (world st)
   \<and> rand_draws (world (foldl (apply_translation fileId parts) st xs)) = rand_draws (world st)"
  by (induction xs arbitrary: st)
     (simp_all add: apply_translation_def Let_def world_broadcast world_update_segment)

lemma mark_warning_world:
  "net_calls (world (foldl (mark_warning fileId) st xs)) = net_calls (world st)
   \<and> sleeps (world (foldl (mark_warning fileId) st xs)) = sleeps (world st)
   \<and> rand_draws (world (foldl (mark_warning fileId) st xs)) = rand_draws (world st)"
  by (induction xs arbitrary: st)
     (simp_all add: mark_warning_def Let_def world_broadcast world_update_segment)


subsection \<open>One flush\<close>

lemma job_flush_begin:
  "job (flush_begin fileId b st) = (job st)\<lparr>segments := begun b (segments (job st))\<rparr>"
  by (simp add: flush_begin_eq Let_def job_update_segment begun_def)

lemma job_flush_call: "job (snd (flush_call env b st)) = job st"
  by (simp add: flush_call_def Let_def job_sleep)

lemma flushBatch_job:
  "job (flushBatch env fileId tot cnt b st) =
     (job st)\<lparr>segments :=
        (case fst (flush_call env b (flush_begin fileId b st)) of
           Inr block \<Rightarrow>
             foldl (\<lambda>sg x. sg[fst x := completed_with (split_delim block) (snd x) (sg ! fst x)])
               (begun b (segments (job st))) (zip b [0..<length b])
         | Inl e \<Rightarrow>
             foldl (\<lambda>sg x. sg[x := warned (sg ! x)]) (begun b (segments (job st))) b)\<rparr>"
  by (cases "fst (flush_call env b (flush_begin fileId b st))")
     (simp_all add: flushBatch_def flush_end_def Let_def job_broadcast apply_translation_job
        mark_warning_job job_flush_call job_flush_begin)

lemma flushBatch_length:
  "length (segments (job (flushBatch env fileId tot cnt b st))) = length (segments (job st))"
  by (cases "fst (flush_call env b (flush_begin fileId b st))")
     (simp_all add: flushBatch_job begun_def
        foldl_update_length [where pos = "\<lambda>x. x" and upd = "\<lambda>x. warned"]
        foldl_update_length [where pos = fst and upd = "\<lambda>x. completed_with parts (snd x)" for parts])

lemma flushBatch_original:
  "map original (segments (job (flushBatch env fileId tot cnt b st))) = map original (segments (job st))"
proof -
  have b: "map original (begun b (segments (job st))) = map original (segments (job st))"
  proof (cases "last b < length (segments (job st))")
    case True
    then have "(map original (segments (job st)))[last b := original (segments (job st) ! last b)]
               = map original (segments (job st))"
      by (metis list_update_id nth_map)
    then show ?thesis by (simp add: begun_def map_update)
  next
    case False
    then show ?thesis by (simp add: begun_def list_update_beyond)
  qed
  show ?thesis
  proof (cases "fst (flush_call env b (flush_begin fileId b st))")
    case (Inl e)
    have "map original (foldl (\<lambda>sg x. sg[id x := (\<lambda>x. warned) x (sg ! id x)]) (begun b (segments (job st))) b)
          = map original (begun b (segments (job st)))"
      by (rule foldl_update_map) (simp add: warned_def)
    with Inl b show ?thesis by (simp add: flushBatch_job)
  next
    case (Inr block)
    have "map original (foldl (\<lambda>sg x. sg[fst x := (\<lambda>x. completed_with (split_delim block) (snd x)) x (sg ! fst x)])
             (begun b (segments (job st))) (zip b [0..<length b]))
          = map original (begun b (segments (job st)))"
      by (rule foldl_update_map) (simp add: completed_with_def)
    with Inr b show ?thesis by (simp add: flushBatch_job)
  qed
qed

lemma flushBatch_other:
  assumes "b \<noteq> []" and "i \<notin> set b"
  shows "segments (job (flushBatch env fileId tot cnt b st)) ! i = segments (job st) ! i"
proof -
  have "last b \<in> set b" using assms(1) by simp
  with assms(2) have ne: "i \<noteq> last b" by metis
  then have b: "begun b (segments (job st)) ! i = segments (job st) ! i"
    by (simp add: begun_def)
  show ?thesis
  proof (cases "fst (flush_call env b (flush_begin fileId b st))")
    case (Inl e)
    have "foldl (\<lambda>sg x. sg[id x := (\<lambda>x. warned) x (sg ! id x)]) (begun b (segments (job st))) b ! i
          = begun b (segments (job st)) ! i"
      by (rule foldl_update_other) (simp add: assms(2))
    with Inl b show ?thesis by (simp add: flushBatch_job)
  next
    case (Inr block)
    have "i \<notin> fst ` set (zip b [0..<length b])"
      using assms(2) by (auto dest: set_zip_leftD)
    then have "foldl (\<lambda>sg x. sg[fst x := (\<lambda>x. completed_with (split_delim block) (snd x)) x (sg ! fst x)])
             (begun b (segments (job st))) (zip b [0..<length b]) ! i
          = begun b (segments (job st)) ! i"
      by (rule foldl_update_other)
    with Inr b show ?thesis by (simp add: flushBatch_job)
  qed
qed

lemma flushBatch_failed:
  assumes "fst (flush_call env b (flush_begin fileId b st)) = Inl e"
    and "distinct b" and "\<forall>i \<in> set b. i < length (segments (job st))" and "i \<in> set b"
  shows "segments (job (flushBatch env fileId tot cnt b st)) ! i = warned (begun b (segments (job st)) ! i)"
proof -
  from assms(4) obtain k where k: "k < length b" and ik: "b ! k = i"
    by (auto simp: in_set_conv_nth)
  have "foldl (\<lambda>sg x. sg[id x := (\<lambda>x. warned) x (sg ! id x)]) (begun b (segments (job st))) b ! id (b ! k)
        = (\<lambda>x. warned) (b ! k) (begun b (segments (job st)) ! id (b ! k))"
    by (rule foldl_update_nth) (simp_all add: assms(2,3) k begun_def)
  with assms(1) ik show ?thesis by (simp add: flushBatch_job)
qed

lemma flushBatch_translated:
  assumes "fst (flush_call env b (flush_begin fileId b st)) = Inr block"
    and "distinct b" and "\<forall>i \<in> set b. i < length (segments (job st))" and "k < length b"
  shows "segments (job (flushBatch env fileId tot cnt b st)) ! (b ! k)
         = completed_with (split_delim block) k (begun b (segments (job st)) ! (b ! k))"
proof -
  let ?xs = "zip b [0..<length b]"
  have x: "?xs ! k = (b ! k, k)" using assms(4) by simp
  have "foldl (\<lambda>sg x. sg[fst x := (\<lambda>x. completed_with (split_delim block) (snd x)) x (sg ! fst x)])
           (begun b (segments (job st))) ?xs ! fst (?xs ! k)
        = (\<lambda>x. completed_with (split_delim block) (snd x)) (?xs ! k) (begun b (segments (job st)) ! fst (?xs ! k))"
  proof (rule foldl_update_nth)
    show "distinct (map fst ?xs)" using assms(2) by simp
    show "\<forall>x \<in> set ?xs. fst x < length (begun b (segments (job st)))"
      using assms(3) by (auto simp: begun_def dest: set_zip_leftD)
    show "k < length ?xs" using assms(4) by simp
  qed
  with assms(1) x show ?thesis by (simp add: flushBatch_job)
qed

subsection \<open>The retry loop\<close>

lemma map_upt_Suc_shift: "map f [0..<Suc m] = f 0 # map (\<lambda>k. f (Suc k)) [0..<m]"
  by (simp add: upt_conv_Cons map_Suc_upt [symmetric] del: upt_Suc)

lemma translate_attempts_spec:
  "attempt < MAX_RETRIES \<Longrightarrow>
   \<exists>n. 1 \<le> n \<and> attempt + n \<le> MAX_RETRIES
     \<and> net_calls (snd (translate_attempts env src lang attempt w)) = net_calls w + n
     \<and> rand_draws (snd (translate_attempts env src lang attempt w)) = rand_draws w + (n - 1)
     \<and> events (snd (translate_attempts env src lang attempt w)) = events w
     \<and> sleeps (snd (translate_attempts env src lang attempt w))
         = sleeps w @ map (\<lambda>k. backoffTime env (attempt + k) (rand_draws w + k)) [0..<n - 1]
     \<and> (\<forall>k < n - 1. \<exists>e. remote env (net_calls w + k) lang src = Failure e \<and> retryable e)
     \<and> (case remote env (net_calls w + (n - 1)) lang src of
           Response t \<Rightarrow> fst (translate_attempts env src lang attempt w) = Inr (response_text t src)
         | Failure e \<Rightarrow> fst (translate_attempts env src lang attempt w) = Inl (ApiFailure e)
                        \<and> (retryable e \<longrightarrow> attempt + n = MAX_RETRIES))"
proof (induction env src lang attempt w rule: translate_attempts.induct)
  case (1 env src lang attempt w)
  let ?w1 = "w\<lparr>net_calls := Suc (net_calls w)\<rparr>"
  let ?w2 = "?w1\<lparr>sleeps := sleeps ?w1 @ [backoffTime env attempt (rand_draws ?w1)],
                 rand_draws := Suc (rand_draws ?w1)\<rparr>"
  show ?case
  proof (cases "remote env (net_calls w) lang src")
    case (Response t)
    then have "translate_attempts env src lang attempt w = (Inr (response_text t src), ?w1)"
      using "1.prems" by (subst translate_attempts.simps) (simp add: Let_def)
    with Response "1.prems" show ?thesis
      by (intro exI [of _ 1]) simp
  next
    case (Failure e)
    show ?thesis
    proof (cases "retryable e \<and> attempt < MAX_RETRIES - 1")
      case False
      then have "translate_attempts env src lang attempt w = (Inl (ApiFailure e), ?w1)"
        using "1.prems" Failure by (subst translate_attempts.simps) (auto simp: retryable_def Let_def)
      with Failure "1.prems" False show ?thesis
        by (intro exI [of _ 1]) (auto simp: MAX_RETRIES_def)
    next
      case True
      then have eq: "translate_attempts env src lang attempt w
                   = translate_attempts env src lang (attempt + 1) ?w2"
        using "1.prems" Failure by (subst translate_attempts.simps) (simp add: retryable_def Let_def)
      have lt: "attempt + 1 < MAX_RETRIES" using True by (simp add: MAX_RETRIES_def)
      from "1.IH" [OF "1.prems" refl Failure _ lt] True
      obtain n where n: "1 \<le> n" "attempt + 1 + n \<le> MAX_RETRIES"
        and nc: "net_calls (snd (translate_attempts env src lang (attempt + 1) ?w2)) = net_calls ?w2 + n"
        and rd: "rand_draws (snd (translate_attempts env src lang (attempt + 1) ?w2)) = rand_draws ?w2 + (n - 1)"
        and ev: "events (snd (translate_attempts env src lang (attempt + 1) ?w2)) = events ?w2"
        and sl: "sleeps (snd (translate_attempts env src lang (attempt + 1) ?w2))
                 = sleeps ?w2 @ map (\<lambda>k. backoffTime env (attempt + 1 + k) (rand_draws ?w2 + k)) [0..<n - 1]"
        and before: "\<forall>k < n - 1. \<exists>e. remote env (net_calls ?w2 + k) lang src = Failure e \<and> retryable e"
        and lastc: "case remote env (net_calls ?w2 + (n - 1)) lang src of
           Response t \<Rightarrow> fst (translate_attempts env src lang (attempt + 1) ?w2) = Inr (response_text t src)
         | Failure e \<Rightarrow> fst (translate_attempts env src lang (attempt + 1) ?w2) = Inl (ApiFailure e)
                        \<and> (retryable e \<longrightarrow> attempt + 1 + n = MAX_RETRIES)"
        unfolding retryable_def by blast
      obtain m where m: "n = Suc m" using n(1) by (cases n) simp_all
      have s: "sleeps w @ map (\<lambda>k. backoffTime env (attempt + k) (rand_draws w + k)) [0..<Suc m]
             = sleeps ?w2 @ map (\<lambda>k. backoffTime env (attempt + 1 + k) (rand_draws ?w2 + k)) [0..<m]"
        by (simp add: map_upt_Suc_shift del: upt_Suc)
      have b: "\<forall>k < Suc m. \<exists>e. remote env (net_calls w + k) lang src = Failure e \<and> retryable e"
      proof (intro allI impI)
        fix k assume k: "k < Suc m"
        show "\<exists>e. remote env (net_calls w + k) lang src = Failure e \<and> retryable e"
        proof (cases k)
          case 0
          with Failure True show ?thesis by simp
        next
          case (Suc k')
          with k m before show ?thesis by simp
        qed
      qed
      show ?thesis
        unfolding eq
        apply (intro exI [of _ "Suc n"])
        using n nc rd ev sl b lastc m s
        apply (simp del: upt_Suc split: Outcome.splits)
        done
    qed
  qed
qed

subsection \<open>The batches of a run\<close>

lemma batches_from_cong:
  "map original sg = map original sg' \<Longrightarrow> \<forall>r \<in> set rest. r < length sg \<Longrightarrow>
   batches_from sg rest cur cnt = batches_from sg' rest cur cnt"
proof (induction rest arbitrary: cur cnt)
  case Nil
  then show ?case by simp
next
  case (Cons r rest)
  have "r < length sg" using Cons.prems(2) by simp
  then have "original (sg ! r) = original (sg' ! r)"
    using Cons.prems(1) by (metis length_map nth_map)
  moreover have "\<forall>r \<in> set rest. r < length sg" using Cons.prems(2) by simp
  ultimately show ?case
    using Cons.IH [OF Cons.prems(1)] by (simp add: Let_def)
qed

lemma batches_from_concat:
  "rest \<noteq> [] \<Longrightarrow> concat (batches_from sg rest cur cnt) = cur @ rest"
proof (induction rest arbitrary: cur cnt)
  case Nil
  then show ?case by simp
next
  case (Cons r rest)
  show ?case
  proof (cases "rest = []")
    case True
    then show ?thesis by (simp add: Let_def)
  next
    case False
    then show ?thesis using Cons.IH by (simp add: Let_def)
  qed
qed

lemma batches_from_nonempty: "b \<in> set (batches_from sg rest cur cnt) \<Longrightarrow> b \<noteq> []"
proof (induction rest arbitrary: cur cnt)
  case Nil
  then show ?case by simp
next
  case (Cons r rest)
  then show ?case by (auto simp: Let_def split: if_splits)
qed

lemma batch_loop_flush_all:
  "\<forall>r \<in> set rest. r < length (segments (job st)) \<Longrightarrow>
   batch_loop env fileId tot rest cur cnt c st =
     flush_all env fileId tot c (batches_from (segments (job st)) rest cur cnt) st"
proof (induction rest arbitrary: cur cnt c st)
  case Nil
  then show ?case by simp
next
  case (Cons r rest)
  let ?batch = "cur @ [r]"
  let ?cc = "cnt + length (original (segments (job st) ! r))"
  have rest: "\<forall>r \<in> set rest. r < length (segments (job st))" using Cons.prems by simp
  show ?case
  proof (cases "?cc \<ge> MAX_BATCH_CHARS \<or> rest = []")
    case True
    let ?st' = "flushBatch env fileId tot c ?batch st"
    have len: "\<forall>r \<in> set rest. r < length (segments (job ?st'))"
      using rest by (simp add: flushBatch_length)
    have "batches_from (segments (job ?st')) rest [] 0 = batches_from (segments (job st)) rest [] 0"
      using flushBatch_original len by (rule batches_from_cong)
    with Cons.IH [OF len, of "[]" 0 "c + length ?batch"] True show ?thesis
      by (simp add: Let_def segment_at_def)
  next
    case False
    with Cons.IH [OF rest, of ?batch ?cc c] show ?thesis
      by (simp add: Let_def segment_at_def)
  qed
qed

lemma flush_all_append:
  "flush_all env fileId tot c (bs @ bs') st =
     flush_all env fileId tot (c + length (concat bs)) bs' (flush_all env fileId tot c bs st)"
  by (induction bs arbitrary: c st) (simp_all add: add.assoc)

lemma flush_all_length:
  "length (segments (job (flush_all env fileId tot c bs st))) = length (segments (job st))"
  by (induction bs arbitrary: c st) (simp_all add: flushBatch_length)

lemma flush_all_other:
  "\<forall>b \<in> set bs. b \<noteq> [] \<and> i \<notin> set b \<Longrightarrow>
   segments (job (flush_all env fileId tot c bs st)) ! i = segments (job st) ! i"
  by (induction bs arbitrary: c st) (simp_all add: flushBatch_other)

lemma flushBatch_fields:
  "job (flushBatch env fileId tot c b st) =
     (job st)\<lparr>segments := segments (job (flushBatch env fileId tot c b st))\<rparr>"
  by (simp add: flushBatch_job)

lemma flush_all_fields:
  "job (flush_all env fileId tot c bs st) =
     (job st)\<lparr>segments := segments (job (flush_all env fileId tot c bs st))\<rparr>"
proof (induction bs arbitrary: c st)
  case Nil
  then show ?case by simp
next
  case (Cons b bs)
  have "job (flush_all env fileId tot (c + length b) bs (flushBatch env fileId tot c b st)) =
        (job (flushBatch env fileId tot c b st))\<lparr>segments :=
           segments (job (flush_all env fileId tot (c + length b) bs (flushBatch env fileId tot c b st)))\<rparr>"
    by (rule Cons.IH)
  also have "\<dots> = (job st)\<lparr>segments :=
           segments (job (flush_all env fileId tot (c + length b) bs (flushBatch env fileId tot c b st)))\<rparr>"
    by (subst flushBatch_fields) simp
  finally show ?case by simp
qed

subsection \<open>The event feed of a run\<close>

lemma translate_events: "events (snd (translateTextSegment env src lang w)) = events w"
proof (cases "src = [] \<or> length (trim src) = 0")
  case True
  then show ?thesis by (auto simp: translateTextSegment_def)
next
  case False
  have "0 < MAX_RETRIES" by (simp add: MAX_RETRIES_def)
  from translate_attempts_spec [OF this, of env src lang w] False show ?thesis
    by (auto simp: translateTextSegment_def)
qed

lemma progress_feed_append: "progress_feed (xs @ ys) = progress_feed xs @ progress_feed ys"
  by (simp add: progress_feed_def)

lemma progress_feed_translating:
  "progress_feed (map (\<lambda>s. translating_message fileId (f s)) b) = []"
  by (induction b) (simp_all add: progress_feed_def translating_message_def)

lemma apply_translation_feed:
  "progress_feed (events (world (foldl (apply_translation fileId parts) st xs)))
   = progress_feed (events (world st))"
  by (induction xs arbitrary: st)
     (simp_all add: apply_translation_def Let_def world_broadcast world_update_segment
        progress_feed_append, simp_all add: progress_feed_def)

lemma mark_warning_feed:
  "progress_feed (events (world (foldl (mark_warning fileId) st xs)))
   = progress_feed (events (world st))"
  by (induction xs arbitrary: st)
     (simp_all add: mark_warning_def Let_def world_broadcast world_update_segment
        progress_feed_append, simp_all add: progress_feed_def)

lemma flush_begin_feed:
  "progress_feed (events (world (flush_begin fileId b st))) = progress_feed (events (world st))"
  by (simp add: flush_begin_eq Let_def progress_feed_append progress_feed_translating)

lemma flush_call_events:
  "events (world (snd (flush_call env b st))) = events (world st)"
  by (simp add: flush_call_def Let_def translate_events world_sleep)

lemma flushBatch_feed:
  "progress_feed (events (world (flushBatch env fileId tot c b st)))
   = progress_feed (events (world st)) @ [progress_of (c + length b) tot]"
proof -
  let ?r = "flush_call env b (flush_begin fileId b st)"
  have "progress_feed (events (world (flush_end fileId b ?r))) = progress_feed (events (world (snd ?r)))"
    by (cases "fst ?r") (simp_all add: flush_end_def apply_translation_feed mark_warning_feed)
  also have "\<dots> = progress_feed (events (world st))"
    by (simp add: flush_call_events flush_begin_feed)
  finally show ?thesis
    by (simp add: flushBatch_def Let_def world_broadcast progress_feed_append)
       (simp add: progress_feed_def)
qed

lemma flush_all_feed:
  "progress_feed (events (world (flush_all env fileId tot c bs st)))
   = progress_feed (events (world st)) @ map (\<lambda>n. progress_of n tot) (attempted_after c bs)"
  by (induction bs arbitrary: c st) (simp_all add: flushBatch_feed)

subsection \<open>Rounding to a double\<close>

lemma binade_up_bounds: "1 \<le> x \<Longrightarrow> 2 ^ binade_up x \<le> x \<and> x < 2 ^ Suc (binade_up x)"
proof (induction x rule: binade_up.induct)
  case (1 x)
  show ?case
  proof (cases "x < 2")
    case True
    with 1 show ?thesis by (subst (1 2) binade_up.simps) simp
  next
    case False
    then have "1 \<le> x / 2" by simp
    with 1 False have "2 ^ binade_up (x / 2) \<le> x / 2 \<and> x / 2 < 2 ^ Suc (binade_up (x / 2))"
      by blast
    with False show ?thesis by (subst (1 2) binade_up.simps) simp
  qed
qed

lemma binade_down_bounds:
  "0 < x \<Longrightarrow> x < 1 \<Longrightarrow>
     1 / 2 ^ binade_down x \<le> x \<and> x < 2 / 2 ^ binade_down x \<and> 0 < binade_down x"
proof (induction x rule: binade_down.induct)
  case (1 x)
  show ?case
  proof (cases "1 \<le> 2 * x")
    case True
    have e: "binade_down (2 * x) = 0" using True by (subst binade_down.simps) simp
    have "binade_down x = Suc 0" using 1 e by (subst binade_down.simps) simp
    with True 1 show ?thesis by simp
  next
    case False
    with 1 have ih: "1 / 2 ^ binade_down (2 * x) \<le> 2 * x \<and> 2 * x < 2 / 2 ^ binade_down (2 * x)"
      by simp
    have "binade_down x = Suc (binade_down (2 * x))" using 1 by (subst binade_down.simps) simp
    with ih show ?thesis by (simp add: field_simps)
  qed
qed

lemma binade_bounds:
  assumes "0 < x"
  shows "2 powi binade x \<le> x \<and> x < 2 powi (binade x + 1)"
proof (cases "1 \<le> x")
  case True
  then have b: "binade x = int (binade_up x)" by (simp add: binade_def)
  have "int (binade_up x) + 1 = int (Suc (binade_up x))" by simp
  then show ?thesis using binade_up_bounds [OF True] unfolding b by (simp only: power_int_of_nat)
next
  case False
  then have lt: "x < 1" by simp
  define k where "k = binade_down x"
  have b: "binade x = - int k" using False by (simp add: binade_def k_def)
  from binade_down_bounds [OF assms lt]
  have lo: "1 / 2 ^ k \<le> x" and hi: "x < 2 / 2 ^ k" and k: "0 < k" by (simp_all add: k_def)
  have p1: "(2 :: rat) powi (- int k) = 1 / 2 ^ k" by (simp add: power_int_minus_divide)
  obtain j where j: "k = Suc j" using k by (cases k) simp_all
  have "- int k + 1 = - int j" using j by simp
  then have p2: "(2 :: rat) powi (- int k + 1) = 2 / 2 ^ k"
    using j by (simp add: power_int_minus_divide)
  show ?thesis unfolding b p1 p2 using lo hi by simp
qed

lemma pow2_less_imp:
  assumes "(2 :: rat) powi m < 2 powi n"
  shows "m < n"
proof (rule ccontr)
  assume "\<not> m < n"
  then have "n \<le> m" by simp
  then have "(2 :: rat) powi n \<le> 2 powi m" by (rule power_int_increasing) simp
  with assms show False by simp
qed

lemma binade_unique:
  assumes "2 powi e \<le> x" and "x < 2 powi (e + 1)"
  shows "binade x = e"
proof -
  have "(0 :: rat) < 2 powi e" by (simp add: zero_less_power_int)
  then have x: "0 < x" using assms(1) by (rule less_le_trans)
  note b = binade_bounds [OF x]
  have "(2 :: rat) powi binade x < 2 powi (e + 1)" using b assms by simp
  then have "binade x < e + 1" by (rule pow2_less_imp)
  moreover have "(2 :: rat) powi e < 2 powi (binade x + 1)" using b assms by simp
  then have "e < binade x + 1" by (rule pow2_less_imp)
  ultimately show ?thesis by simp
qed

lemma binade_mono:
  assumes "0 < x" and "x \<le> y"
  shows "binade x \<le> binade y"
proof -
  have y: "0 < y" using assms by simp
  have "(2 :: rat) powi binade x \<le> x" using binade_bounds [OF assms(1)] by simp
  also have "x \<le> y" by fact
  also have "y < 2 powi (binade y + 1)" using binade_bounds [OF y] by simp
  finally have "binade x < binade y + 1" by (rule pow2_less_imp)
  then show ?thesis by simp
qed

lemma round_ties_even_error: "\<bar>of_int (round_ties_even r) - r\<bar> \<le> 1 / 2"
proof -
  define f where "f = \<lfloor>r\<rfloor>"
  define d where "d = r - of_int f"
  have d: "0 \<le> d" "d < 1" unfolding d_def f_def by linarith+
  have r: "r = of_int f + d" by (simp add: d_def)
  have "round_ties_even r =
          (if d < 1 / 2 then f else if 1 / 2 < d then f + 1 else if even f then f else f + 1)"
    by (simp add: round_ties_even_def f_def d_def Let_def)
  then show ?thesis using d unfolding r by (auto simp: abs_if)
qed

lemma round_ties_even_eqI:
  assumes "\<bar>of_int m - r\<bar> < 1 / 2"
  shows "round_ties_even r = m"
proof -
  have "\<bar>of_int (round_ties_even r) - r\<bar> \<le> 1 / 2" by (rule round_ties_even_error)
  with assms have "\<bar>(of_int (round_ties_even r) :: rat) - of_int m\<bar> < 1" by linarith
  then have "\<bar>(of_int (round_ties_even r - m) :: rat)\<bar> < of_int 1" by simp
  then have "\<bar>round_ties_even r - m\<bar> < 1" by (simp only: of_int_abs [symmetric] of_int_less_iff)
  then show ?thesis by simp
qed

lemma round_ties_even_of_int [simp]: "round_ties_even (of_int k) = k"
  by (simp add: round_ties_even_def)

lemma round_ties_even_mono:
  assumes "r \<le> s"
  shows "round_ties_even r \<le> round_ties_even s"
proof -
  have f: "\<lfloor>r\<rfloor> \<le> \<lfloor>s\<rfloor>" using assms by (rule floor_mono)
  have lo: "\<lfloor>s\<rfloor> \<le> round_ties_even s" by (simp add: round_ties_even_def Let_def)
  have hi: "round_ties_even r \<le> \<lfloor>r\<rfloor> + 1" by (simp add: round_ties_even_def Let_def)
  show ?thesis
  proof (cases "\<lfloor>r\<rfloor> = \<lfloor>s\<rfloor>")
    case True
    have "r - of_int \<lfloor>s\<rfloor> \<le> s - of_int \<lfloor>s\<rfloor>" using assms by simp
    then show ?thesis unfolding round_ties_even_def Let_def True by auto
  next
    case False
    with f have "\<lfloor>r\<rfloor> + 1 \<le> \<lfloor>s\<rfloor>" by simp
    with lo hi show ?thesis by simp
  qed
qed

lemma to_double_pos_error:
  assumes "0 < x"
  shows "\<bar>to_double_pos x - x\<bar> \<le> x / 2 ^ 53"
proof -
  define u :: rat where "u = 2 powi (binade x - 52)"
  have u: "0 < u" by (simp add: u_def zero_less_power_int)
  have "\<bar>of_int (round_ties_even (x / u)) - x / u\<bar> \<le> 1 / 2" by (rule round_ties_even_error)
  then have "u * \<bar>of_int (round_ties_even (x / u)) - x / u\<bar> \<le> u * (1 / 2)"
    using u by (simp only: mult_le_cancel_left_pos)
  moreover have "u * \<bar>of_int (round_ties_even (x / u)) - x / u\<bar> = \<bar>to_double_pos x - x\<bar>"
  proof -
    have "u * \<bar>of_int (round_ties_even (x / u)) - x / u\<bar>
            = \<bar>u * (of_int (round_ties_even (x / u)) - x / u)\<bar>"
      using u by (simp add: abs_mult)
    also have "u * (of_int (round_ties_even (x / u)) - x / u) = to_double_pos x - x"
      using u by (simp add: to_double_pos_def u_def [symmetric] right_diff_distrib)
    finally show ?thesis .
  qed
  moreover have "u * (1 / 2) \<le> x / 2 ^ 53"
  proof -
    have "(2 :: rat) powi binade x \<le> x" using binade_bounds [OF assms] by simp
    moreover have "(2 :: rat) powi binade x = u * 2 ^ 52"
      unfolding u_def by (simp add: power_int_diff)
    ultimately have "u * 2 ^ 52 \<le> x" by simp
    then show ?thesis by simp
  qed
  ultimately show ?thesis by simp
qed

lemma to_double_pos_bounds:
  assumes "0 < x"
  shows "2 powi binade x \<le> to_double_pos x \<and> to_double_pos x \<le> 2 powi (binade x + 1)"
proof -
  define u :: rat where "u = 2 powi (binade x - 52)"
  have u: "0 < u" by (simp add: u_def zero_less_power_int)
  have p: "(2 :: rat) powi binade x = u * 2 ^ 52" "(2 :: rat) powi (binade x + 1) = u * 2 ^ 53"
    unfolding u_def by (simp_all add: power_int_diff power_int_add)
  have "u * 2 ^ 52 \<le> x" "x < u * 2 ^ 53" using binade_bounds [OF assms] unfolding p by simp_all
  then have "2 ^ 52 \<le> x / u" "x / u \<le> 2 ^ 53" using u by (simp_all add: field_simps)
  then have "round_ties_even (of_int (2 ^ 52)) \<le> round_ties_even (x / u)"
        "round_ties_even (x / u) \<le> round_ties_even (of_int (2 ^ 53))"
    by (simp_all add: round_ties_even_mono)
  then have "(2 :: int) ^ 52 \<le> round_ties_even (x / u)" "round_ties_even (x / u) \<le> (2 :: int) ^ 53"
    by (simp_all only: round_ties_even_of_int)
  then have "(of_int (2 ^ 52) :: rat) \<le> of_int (round_ties_even (x / u))"
        "(of_int (round_ties_even (x / u)) :: rat) \<le> of_int (2 ^ 53)"
    by (simp_all only: of_int_le_iff)
  then have "u * 2 ^ 52 \<le> u * of_int (round_ties_even (x / u))"
        "u * of_int (round_ties_even (x / u)) \<le> u * 2 ^ 53"
    using u by simp_all
  then show ?thesis unfolding p by (simp add: to_double_pos_def u_def [symmetric])
qed

lemma to_double_pos_mono:
  assumes "0 < x" and "x \<le> y"
  shows "to_double_pos x \<le> to_double_pos y"
proof -
  have y: "0 < y" using assms by simp
  have b: "binade x \<le> binade y" using assms by (rule binade_mono)
  show ?thesis
  proof (cases "binade x = binade y")
    case True
    define u :: rat where "u = 2 powi (binade y - 52)"
    have u: "0 < u" by (simp add: u_def zero_less_power_int)
    have "x / u \<le> y / u" using assms u by (simp add: divide_right_mono)
    then have "round_ties_even (x / u) \<le> round_ties_even (y / u)" by (rule round_ties_even_mono)
    then have "(of_int (round_ties_even (x / u)) :: rat) \<le> of_int (round_ties_even (y / u))"
      by simp
    then have "u * of_int (round_ties_even (x / u)) \<le> u * of_int (round_ties_even (y / u))"
      using u by simp
    then show ?thesis by (simp add: to_double_pos_def True u_def [symmetric])
  next
    case False
    with b have "binade x + 1 \<le> binade y" by simp
    then have "(2 :: rat) powi (binade x + 1) \<le> 2 powi binade y"
      by (rule power_int_increasing) simp
    moreover have "to_double_pos x \<le> 2 powi (binade x + 1)"
      using to_double_pos_bounds [OF assms(1)] by simp
    moreover have "2 powi binade y \<le> to_double_pos y"
      using to_double_pos_bounds [OF y] by simp
    ultimately show ?thesis by simp
  qed
qed

lemma to_double_pos_eqI:
  assumes "2 powi e \<le> x" and "x < 2 powi (e + 1)"
    and "\<bar>of_int m - x / 2 powi (e - 52)\<bar> < 1 / 2"
  shows "to_double_pos x = 2 powi (e - 52) * of_int m"
proof -
  have b: "binade x = e" using assms(1,2) by (rule binade_unique)
  have "round_ties_even (x / 2 powi (e - 52)) = m" using assms(3) by (rule round_ties_even_eqI)
  then show ?thesis by (simp add: to_double_pos_def b)
qed

lemma to_double_mono:
  assumes "0 \<le> x" and "x \<le> y"
  shows "to_double x \<le> to_double y"
proof (cases "x = 0")
  case True
  show ?thesis
  proof (cases "y = 0")
    case True
    with \<open>x = 0\<close> show ?thesis by simp
  next
    case False
    with assms have y: "0 < y" by simp
    have "(0 :: rat) < 2 powi binade y" by (simp add: zero_less_power_int)
    also have "\<dots> \<le> to_double_pos y" using to_double_pos_bounds [OF y] by simp
    finally show ?thesis using y \<open>x = 0\<close> by (simp add: to_double_def)
  qed
next
  case False
  with assms have x: "0 < x" by simp
  with assms have y: "0 < y" by simp
  have "to_double_pos x \<le> to_double_pos y" using x assms(2) by (rule to_double_pos_mono)
  with x y show ?thesis by (simp add: to_double_def)
qed

lemma to_double_zero [simp]: "to_double 0 = 0"
  by (simp add: to_double_def)

lemma to_double_error:
  assumes "0 \<le> x"
  shows "\<bar>to_double x - x\<bar> \<le> x / 2 ^ 53"
proof (cases "x = 0")
  case True
  then show ?thesis by simp
next
  case False
  with assms have x: "0 < x" by simp
  then show ?thesis using to_double_pos_error [OF x] by (simp add: to_double_def)
qed

lemma to_double_one: "to_double 1 = 1"
proof -
  have "to_double_pos 1 = 2 powi (0 - 52) * of_int (2 ^ 52)"
    by (rule to_double_pos_eqI) (simp_all add: power_int_minus_divide)
  then show ?thesis by (simp add: to_double_def power_int_minus_divide)
qed

lemma to_double_hundred: "to_double 100 = 100"
proof -
  have "to_double_pos 100 = 2 powi (6 - 52) * of_int (25 * 2 ^ 48)"
    by (rule to_double_pos_eqI) (simp_all add: power_int_minus_divide)
  then show ?thesis by (simp add: to_double_def power_int_minus_divide)
qed


lemma to_double_nonneg: "0 \<le> x \<Longrightarrow> 0 \<le> to_double x"
  using to_double_mono [of 0 x] by simp

subsection \<open>Progress values\<close>

lemma progress_of_mono: "n \<le> m \<Longrightarrow> progress_of n t \<le> progress_of m t"
proof -
  assume "n \<le> m"
  then have le: "(of_nat n :: rat) / of_nat t \<le> of_nat m / of_nat t"
    by (simp add: divide_right_mono)
  have "(0 :: rat) \<le> of_nat n / of_nat t" by simp
  then have q: "js_div (of_nat n) (of_nat t) \<le> js_div (of_nat m) (of_nat t)"
    and q0: "0 \<le> js_div (of_nat n) (of_nat t)"
    using le unfolding js_div_def by (simp_all add: to_double_mono to_double_nonneg)
  from q have "js_div (of_nat n) (of_nat t) * 100 \<le> js_div (of_nat m) (of_nat t) * 100"
    by (rule mult_right_mono) simp
  moreover have "0 \<le> js_div (of_nat n) (of_nat t) * 100" using q0 by simp
  ultimately have "js_mul (js_div (of_nat n) (of_nat t)) 100 \<le> js_mul (js_div (of_nat m) (of_nat t)) 100"
    unfolding js_mul_def by (simp only: to_double_mono)
  then have "js_mul (js_div (of_nat n) (of_nat t)) 100 + 1 / 2
               \<le> js_mul (js_div (of_nat m) (of_nat t)) 100 + 1 / 2"
    by (rule add_right_mono)
  then show ?thesis unfolding progress_of_def js_round_def by (rule floor_mono)
qed

lemma progress_of_zero: "progress_of 0 t = 0"
  by (simp add: progress_of_def js_round_def js_div_def js_mul_def floor_eq_iff)

lemma progress_of_full: "0 < t \<Longrightarrow> progress_of t t = 100"
  by (simp add: progress_of_def js_round_def js_div_def js_mul_def to_double_one to_double_hundred
        floor_eq_iff)

lemma double_percentage_error:
  assumes "0 < t" and "n \<le> t"
  shows "\<bar>js_mul (js_div (of_nat n) (of_nat t)) 100 - 100 * of_nat n / of_nat t\<bar> \<le> 200 / 2 ^ 53"
proof -
  define a :: rat where "a = of_nat n / of_nat t"
  define q where "q = to_double a"
  define y where "y = to_double (q * 100)"
  have a: "0 \<le> a" "a \<le> 1" using assms by (simp_all add: a_def)
  have q0: "0 \<le> q" unfolding q_def using a(1) by (rule to_double_nonneg)
  have "to_double a \<le> to_double 1" using a by (rule to_double_mono)
  then have q1: "q \<le> 1" by (simp add: q_def to_double_one)
  have "\<bar>q - a\<bar> \<le> a / 2 ^ 53" unfolding q_def using a(1) by (rule to_double_error)
  also have "\<dots> \<le> 1 / 2 ^ 53" using a(2) by (simp add: divide_right_mono)
  finally have e1: "\<bar>q - a\<bar> \<le> 1 / 2 ^ 53" .
  have "0 \<le> q * 100" using q0 by simp
  then have "\<bar>y - q * 100\<bar> \<le> q * 100 / 2 ^ 53" unfolding y_def by (rule to_double_error)
  also have "\<dots> \<le> 100 / 2 ^ 53" using q1 by (simp add: divide_right_mono)
  finally have e2: "\<bar>y - q * 100\<bar> \<le> 100 / 2 ^ 53" .
  have "\<bar>y - 100 * a\<bar> \<le> 200 / 2 ^ 53" using e1 e2 by linarith
  moreover have "js_mul (js_div (of_nat n) (of_nat t)) 100 = y"
    by (simp add: js_mul_def js_div_def y_def q_def a_def)
  moreover have "100 * of_nat n / of_nat t = 100 * a" by (simp add: a_def)
  ultimately show ?thesis by simp
qed

lemma percentage_grid:
  fixes k :: int and n t :: nat
  assumes "0 < t"
  shows "100 * of_nat n / (of_nat t :: rat) + 1 / 2 < of_int k \<Longrightarrow>
           100 * of_nat n / (of_nat t :: rat) + 1 / 2 + 1 / (2 * of_nat t) \<le> of_int k"
    and "of_int k < 100 * of_nat n / (of_nat t :: rat) + 1 / 2 \<Longrightarrow>
           of_int k + 1 / (2 * of_nat t) \<le> 100 * of_nat n / (of_nat t :: rat) + 1 / 2"
proof -
  define x :: rat where "x = 100 * of_nat n / of_nat t"
  have t: "(0 :: rat) < of_nat t" using assms(1) by simp
  have g: "x + 1 / 2 = of_int (200 * int n + int t) / (2 * of_nat t)"
    using t by (simp add: x_def field_simps)
  have kk: "(of_int k :: rat) = of_int (k * (2 * int t)) / (2 * of_nat t)"
    using t by simp
  {
    assume "100 * of_nat n / (of_nat t :: rat) + 1 / 2 < of_int k"
    then have "x + 1 / 2 < of_int k" by (simp only: x_def)
    then have "(of_int (200 * int n + int t) :: rat) / (2 * of_nat t) < of_int (k * (2 * int t)) / (2 * of_nat t)"
      unfolding g by (subst (asm) kk)
    then have "(of_int (200 * int n + int t) :: rat) < of_int (k * (2 * int t))"
      using t by (simp only: divide_less_cancel)
    then have "200 * int n + int t < k * (2 * int t)" by (simp only: of_int_less_iff)
    then have "200 * int n + int t + 1 \<le> k * (2 * int t)" by simp
    then have "(of_int (200 * int n + int t + 1) :: rat) \<le> of_int (k * (2 * int t))"
      by (simp only: of_int_le_iff)
    then have "(of_int (200 * int n + int t + 1) :: rat) / (2 * of_nat t) \<le> of_int (k * (2 * int t)) / (2 * of_nat t)"
      using t by (simp only: divide_right_mono)
    then show "100 * of_nat n / (of_nat t :: rat) + 1 / 2 + 1 / (2 * of_nat t) \<le> of_int k"
      unfolding x_def [symmetric] g kk [symmetric] by (simp add: add_divide_distrib)
  }
  {
    assume "of_int k < 100 * of_nat n / (of_nat t :: rat) + 1 / 2"
    then have "of_int k < x + 1 / 2" by (simp only: x_def)
    then have "(of_int (k * (2 * int t)) :: rat) / (2 * of_nat t) < of_int (200 * int n + int t) / (2 * of_nat t)"
      unfolding g by (subst (asm) kk)
    then have "(of_int (k * (2 * int t)) :: rat) < of_int (200 * int n + int t)"
      using t by (simp only: divide_less_cancel)
    then have "k * (2 * int t) < 200 * int n + int t" by (simp only: of_int_less_iff)
    then have "k * (2 * int t) + 1 \<le> 200 * int n + int t" by simp
    then have "(of_int (k * (2 * int t) + 1) :: rat) \<le> of_int (200 * int n + int t)"
      by (simp only: of_int_le_iff)
    then have "(of_int (k * (2 * int t) + 1) :: rat) / (2 * of_nat t) \<le> of_int (200 * int n + int t) / (2 * of_nat t)"
      using t by (simp only: divide_right_mono)
    then show "of_int k + 1 / (2 * of_nat t) \<le> 100 * of_nat n / (of_nat t :: rat) + 1 / 2"
      unfolding x_def [symmetric] g by (subst kk) (simp add: add_divide_distrib)
  }
qed

lemma progress_of_nearest:
  assumes "0 < t" and "n \<le> t" and "t < 2 ^ 32"
  shows "progress_of n t = js_round (100 * of_nat n / of_nat t)
         \<or> (progress_of n t = js_round (100 * of_nat n / of_nat t) - 1
            \<and> of_int (js_round (100 * of_nat n / of_nat t)) = 100 * of_nat n / (of_nat t :: rat) + 1 / 2)"
proof -
  define x :: rat where "x = 100 * of_nat n / of_nat t"
  define y where "y = js_mul (js_div (of_nat n) (of_nat t)) 100"
  define k where "k = js_round x"
  define g :: rat where "g = 1 / (2 * of_nat t)"
  have err: "\<bar>y - x\<bar> \<le> 200 / 2 ^ 53"
    unfolding y_def x_def using assms(1,2) by (rule double_percentage_error)
  have "(of_nat t :: rat) < of_nat (2 ^ 32)" using assms(3) by (simp only: of_nat_less_iff)
  then have "(of_nat t :: rat) < 2 ^ 32" by simp
  moreover have "(0 :: rat) < of_nat t" using assms(1) by simp
  ultimately have "1 / (2 * 2 ^ 32) < g" unfolding g_def by (simp add: field_simps)
  then have g: "200 / 2 ^ 53 < g" by simp
  have kl: "of_int k \<le> x + 1 / 2" and ku: "x + 1 / 2 < of_int (k + 1)"
    unfolding k_def js_round_def by linarith+
  have up: "x + 1 / 2 + g \<le> of_int (k + 1)"
    unfolding g_def x_def using assms(1) ku [unfolded x_def] by (rule percentage_grid(1))
  have p: "progress_of n t = \<lfloor>y + 1 / 2\<rfloor>" by (simp add: progress_of_def js_round_def y_def)
  have "y + 1 / 2 < of_int (k + 1)" using up g err by linarith
  then have le: "\<lfloor>y + 1 / 2\<rfloor> < k + 1" by (simp only: floor_less_iff)
  have small: "(200 :: rat) / 2 ^ 53 < 1" by simp
  have "of_int k - 1 \<le> y + 1 / 2" using kl small err by linarith
  then have "of_int (k - 1) \<le> y + 1 / 2" by simp
  then have ge: "k - 1 \<le> \<lfloor>y + 1 / 2\<rfloor>" by (simp only: le_floor_iff)
  show ?thesis
  proof (cases "of_int k = x + 1 / 2")
    case True
    with le ge show ?thesis unfolding p k_def [symmetric] x_def [symmetric] by auto
  next
    case False
    with kl have "of_int k < x + 1 / 2" by simp
    then have "of_int k + g \<le> x + 1 / 2"
      unfolding g_def x_def using assms(1) by (intro percentage_grid(2))
    then have "of_int k \<le> y + 1 / 2" using g err by linarith
    then have "k \<le> \<lfloor>y + 1 / 2\<rfloor>" by (simp only: le_floor_iff)
    with le show ?thesis unfolding p k_def [symmetric] x_def [symmetric] by auto
  qed
qed

lemma to_double_of_pos: "0 < x \<Longrightarrow> to_double x = to_double_pos x"
  by (simp add: to_double_def)

lemma double_23_of_40: "js_div 23 40 = 5179139571476070 / 2 ^ 53"
proof -
  have "js_div 23 40 = to_double_pos (23 / 40)"
    unfolding js_div_def by (rule to_double_of_pos) simp
  also have "\<dots> = 2 powi (- 1 - 52) * of_int 5179139571476070"
    by (rule to_double_pos_eqI) (simp_all add: power_int_minus_divide)
  also have "\<dots> = 5179139571476070 / 2 ^ 53"
    by (simp add: power_int_minus_divide)
  finally show ?thesis .
qed

lemma double_23_of_40_times_100: "js_mul (5179139571476070 / 2 ^ 53) 100 = 8092405580431359 / 2 ^ 47"
proof -
  have "js_mul (5179139571476070 / 2 ^ 53) 100 = to_double_pos (5179139571476070 / 2 ^ 53 * 100)"
    unfolding js_mul_def by (rule to_double_of_pos) simp
  also have "\<dots> = 2 powi (5 - 52) * of_int 8092405580431359"
    by (rule to_double_pos_eqI) (simp_all add: power_int_minus_divide)
  also have "\<dots> = 8092405580431359 / 2 ^ 47"
    by (simp add: power_int_minus_divide)
  finally show ?thesis .
qed

lemma progress_23_of_40: "progress_of 23 40 = 57"
proof -
  have "progress_of 23 40 = js_round (8092405580431359 / 2 ^ 47)"
    by (simp only: progress_of_def of_nat_numeral double_23_of_40 double_23_of_40_times_100)
  also have "\<dots> = 57" by (simp add: js_round_def floor_eq_iff)
  finally show ?thesis .
qed

lemma attempted_after_length: "length (attempted_after c bs) = length bs"
  by (induction bs arbitrary: c) simp_all

lemma attempted_after_bounds:
  "n \<in> set (attempted_after c bs) \<Longrightarrow> c \<le> n \<and> n \<le> c + length (concat bs)"
proof (induction bs arbitrary: c)
  case Nil
  then show ?case by simp
next
  case (Cons b bs)
  then show ?case by fastforce
qed

lemma attempted_after_sorted: "sorted (attempted_after c bs)"
proof (induction bs arbitrary: c)
  case Nil
  then show ?case by simp
next
  case (Cons b bs)
  have "\<forall>n \<in> set (attempted_after (c + length b) bs). c + length b \<le> n"
    using attempted_after_bounds by blast
  with Cons.IH show ?case by simp
qed

lemma attempted_after_nth:
  "k < length bs \<Longrightarrow> attempted_after c bs ! k = c + length (concat (take (Suc k) bs))"
proof (induction bs arbitrary: c k)
  case Nil
  then show ?case by simp
next
  case (Cons b bs)
  then show ?case by (cases k) simp_all
qed

lemma attempted_after_last:
  "bs \<noteq> [] \<Longrightarrow> last (attempted_after c bs) = c + length (concat bs)"
proof (induction bs arbitrary: c)
  case Nil
  then show ?case by simp
next
  case (Cons b bs)
  then show ?case by (cases bs) simp_all
qed

lemma progress_values_sorted:
  assumes "length (concat bs) = t"
  shows "sorted ([0] @ map (\<lambda>n. progress_of n t) (attempted_after 0 bs) @ [100])"
proof -
  have m: "sorted (map (\<lambda>n. progress_of n t) (attempted_after 0 bs))"
    using attempted_after_sorted [of 0 bs]
    by (simp add: sorted_map sorted_wrt_iff_nth_less progress_of_mono)
  have lo: "\<forall>n \<in> set (attempted_after 0 bs). 0 \<le> progress_of n t"
    using progress_of_mono [of 0 _ t] by (simp add: progress_of_zero)
  have hi: "\<forall>n \<in> set (attempted_after 0 bs). progress_of n t \<le> 100"
  proof
    fix n assume n: "n \<in> set (attempted_after 0 bs)"
    then have le: "n \<le> t" using attempted_after_bounds [of n 0 bs] assms by simp
    have "bs \<noteq> []" using n by auto
    show "progress_of n t \<le> 100"
    proof (cases "t = 0")
      case True
      with le show ?thesis by (simp add: progress_of_zero)
    next
      case False
      with progress_of_mono [OF le, of t] show ?thesis by (simp add: progress_of_full)
    qed
  qed
  from m lo hi show ?thesis by (auto simp: sorted_append)
qed

subsection \<open>A run as a sequence of flushes\<close>

lemma scope_in_range: "\<forall>r \<in> set (segmentsToProcess_of j). r < length (segments j)"
  by (auto simp: segmentsToProcess_of_def Let_def split: option.splits)

lemma scope_distinct: "distinct (segmentsToProcess_of j)"
  by (auto simp: segmentsToProcess_of_def Let_def split: option.splits)

lemma scope_ignores_status:
  "segmentsToProcess_of (j\<lparr>job_status := s\<rparr>) = segmentsToProcess_of j"
  by (simp add: segmentsToProcess_of_def split: option.splits)

lemma job_started: "job (started fileId st) = (job st)\<lparr>job_status := JobProcessing\<rparr>"
  by (simp add: started_def job_broadcast)

lemma world_started:
  "world (started fileId st) =
     (world st)\<lparr>events := events (world st) @ [FILE_PROGRESS fileId 0 (Some JobProcessing) None]\<rparr>"
  by (simp add: started_def world_broadcast)

lemma processJob_run:
  "processJob env fileId st =
     complete_job fileId
       (flush_all env fileId (length (segmentsToProcess_of (job st))) 0
          (batches_from (segments (job st)) (segmentsToProcess_of (job st)) [] 0)
          (started fileId st))"
proof -
  let ?scope = "segmentsToProcess_of (job st)"
  have s: "segmentsToProcess_of (job (started fileId st)) = ?scope"
    by (simp add: job_started scope_ignores_status)
  have sg: "segments (job (started fileId st)) = segments (job st)"
    by (simp add: job_started)
  show ?thesis
  proof (cases "?scope = []")
    case True
    then show ?thesis
      using s by (simp add: processJob_def started_def [symmetric])
  next
    case False
    have "\<forall>r \<in> set ?scope. r < length (segments (job (started fileId st)))"
      using scope_in_range [of "job st"] by (simp add: sg)
    then have "batch_loop env fileId (length ?scope) ?scope [] 0 0 (started fileId st) =
          flush_all env fileId (length ?scope) 0
            (batches_from (segments (job (started fileId st))) ?scope [] 0) (started fileId st)"
      by (rule batch_loop_flush_all)
    with False s show ?thesis
      by (simp add: processJob_def started_def [symmetric] sg Let_def)
  qed
qed

lemma job_complete_job:
  "job (complete_job fileId st) = (job st)\<lparr>job_status := JobCompleted, progress := 100\<rparr>"
  by (simp add: complete_job_def Let_def job_broadcast)

lemma world_complete_job:
  "world (complete_job fileId st) =
     (world st)\<lparr>events := events (world st)
        @ [FILE_COMPLETE fileId ((job st)\<lparr>job_status := JobCompleted, progress := 100\<rparr>)]\<rparr>"
  by (simp add: complete_job_def Let_def world_broadcast)

lemma run_batches_concat:
  "concat (batches_from sg (segmentsToProcess_of j) [] 0) = segmentsToProcess_of j"
  by (cases "segmentsToProcess_of j = []") (simp_all add: batches_from_concat)


subsection \<open>Evaluating the examples\<close>

lemmas job_eval = long_state_def long_job_def two_segment_state_def two_segment_job_def
  queued_job_def fresh_segment_def empty_world_def range_job_def outside_job_def
  range_backend_def outside_state_def hello_job_def hello_state_def bars_job_def bars_state_def


lemmas client_eval = translateTextSegment_def translate_attempts.simps MAX_RETRIES_def
  isRateLimit_def isServerOverload_def errorCode_def errorMessage_def js_or_def truthy_def
  backoffTime_def response_text_def trim_def js_whitespace_def Let_def
  flaky_env_def failing_env_def echo_env_def short_env_def throttled_def server_error_def
  empty_world_def

lemma flaky_run:
  "translateTextSegment flaky_env ''Hello'' ''fr'' empty_world =
     (Inr ''Bonjour'', \<lparr>events = [], net_calls = 3, sleeps = [10000 + 1000, 20000 + 1000], rand_draws = 2\<rparr>)"
  by (simp add: client_eval)

lemma failing_run:
  "translateTextSegment failing_env ''Hello'' ''fr'' empty_world =
     (Inl (ApiFailure server_error), \<lparr>events = [], net_calls = 1, sleeps = [], rand_draws = 0\<rparr>)"
  by (simp add: client_eval)

lemma long_scope: "segmentsToProcess_of (job long_state) = [0, 1]"
  by (simp add: job_eval segmentsToProcess_of_def upt_rec [of 0] upt_rec [of 1] upt_rec [of 2])

lemma long_batches: "batches_from (segments (job long_state)) [0, 1] [] 0 = [[0], [1]]"
  by (simp add: job_eval MAX_BATCH_CHARS_def)


lemma long_run_batches: "run_batches long_state = [[0], [1]]"
  unfolding run_batches_def long_scope long_batches ..


lemma batches_from_below:
  "rest \<noteq> [] \<Longrightarrow>
   cnt + sum_list (map (\<lambda>i. length (original (sg ! i))) rest) < MAX_BATCH_CHARS \<Longrightarrow>
   batches_from sg rest cur cnt = [cur @ rest]"
proof (induction rest arbitrary: cur cnt)
  case Nil
  then show ?case by simp
next
  case (Cons x rest)
  show ?case
  proof (cases "rest = []")
    case True
    then show ?thesis by (simp add: Let_def)
  next
    case False
    have c: "\<not> MAX_BATCH_CHARS \<le> cnt + length (original (sg ! x))"
      using Cons.prems(2) by simp
    have "cnt + length (original (sg ! x)) + sum_list (map (\<lambda>i. length (original (sg ! i))) rest)
            < MAX_BATCH_CHARS"
      using Cons.prems(2) by (simp add: add.assoc)
    with False have "batches_from sg rest (cur @ [x]) (cnt + length (original (sg ! x)))
                       = [(cur @ [x]) @ rest]"
      by (rule Cons.IH)
    with False c show ?thesis by (simp add: Let_def)
  qed
qed

lemma batches_from_reach:
  "cnt + sum_list (map (\<lambda>i. length (original (sg ! i))) pre) < MAX_BATCH_CHARS \<Longrightarrow>
   MAX_BATCH_CHARS \<le> cnt + sum_list (map (\<lambda>i. length (original (sg ! i))) pre)
                          + length (original (sg ! x)) \<Longrightarrow>
   batches_from sg (pre @ x # post) cur cnt = (cur @ pre @ [x]) # batches_from sg post [] 0"
proof (induction pre arbitrary: cur cnt)
  case Nil
  then show ?case by (simp add: Let_def)
next
  case (Cons y pre)
  have c: "\<not> MAX_BATCH_CHARS \<le> cnt + length (original (sg ! y))"
    using Cons.prems(1) by simp
  have "batches_from sg (pre @ x # post) (cur @ [y]) (cnt + length (original (sg ! y)))
          = ((cur @ [y]) @ pre @ [x]) # batches_from sg post [] 0"
    using Cons.prems by (intro Cons.IH) (simp_all add: add.assoc)
  with c show ?case by (simp add: Let_def)
qed

lemma uniform_sum:
  "\<forall>i \<in> set xs. f i = (w :: nat) \<Longrightarrow> sum_list (map f xs) = w * length xs"
  by (induction xs) simp_all

lemma ratio_segments: "segments (job ratio_state) = map ratio_segment [0..<40]"
  by (simp add: ratio_state_def ratio_job_def queued_job_def)

lemma ratio_scope: "segmentsToProcess_of (job ratio_state) = [0..<40]"
  by (simp add: ratio_state_def ratio_job_def queued_job_def segmentsToProcess_of_def)

lemma ratio_original:
  "i < 40 \<Longrightarrow> length (original (segments (job ratio_state) ! i)) = 87"
  by (simp add: ratio_segments ratio_segment_def fresh_segment_def)

lemma ratio_sum:
  assumes "n \<le> 40"
  shows "sum_list (map (\<lambda>i. length (original (segments (job ratio_state) ! i))) [m..<n])
         = 87 * (n - m)"
proof -
  have "\<forall>i \<in> set [m..<n]. length (original (segments (job ratio_state) ! i)) = 87"
    using assms by (simp add: ratio_original)
  then have "sum_list (map (\<lambda>i. length (original (segments (job ratio_state) ! i))) [m..<n])
         = 87 * length [m..<n]"
    by (rule uniform_sum)
  then show ?thesis by simp
qed

lemma ratio_run_batches: "run_batches ratio_state = [[0..<23], [23..<40]]"
proof -
  let ?sg = "segments (job ratio_state)"
  have split: "[0..<40] = [0..<22] @ 22 # [23..<40]"
    using upt_add_eq_append [of 0 22 18] upt_conv_Cons [of 22 40] by simp
  have first: "[0..<22] @ [22] = [0..<23]"
    using upt_Suc_append [of 0 22] by simp
  have o: "length (original (?sg ! 22)) = 87" by (rule ratio_original) simp
  have s1: "sum_list (map (\<lambda>i. length (original (?sg ! i))) [0..<22]) = 87 * (22 - 0)"
    by (rule ratio_sum) simp
  have s2: "sum_list (map (\<lambda>i. length (original (?sg ! i))) [23..<40]) = 87 * (40 - 23)"
    by (rule ratio_sum) simp
  have "batches_from ?sg ([0..<22] @ 22 # [23..<40]) [] 0
          = ([] @ [0..<22] @ [22]) # batches_from ?sg [23..<40] [] 0"
    by (rule batches_from_reach) (simp_all only: s1 o, simp_all add: MAX_BATCH_CHARS_def)
  also have "batches_from ?sg [23..<40] [] 0 = [[] @ [23..<40]]"
    by (rule batches_from_below) (simp, simp only: s2, simp add: MAX_BATCH_CHARS_def)
  finally have "batches_from ?sg ([0..<22] @ 22 # [23..<40]) [] 0 = [[0..<22] @ [22], [23..<40]]"
    by (simp only: append_Nil)
  then show ?thesis unfolding run_batches_def ratio_scope split first .
qed

lemma ratio_attempted: "attempted_after 0 (run_batches ratio_state) = [23, 40]"
  by (simp add: ratio_run_batches)

subsection \<open>Parts and segments\<close>

lemma trim_Nil: "trim [] = []"
  by (simp add: trim_def)

lemma part_text_eq:
  "part_text parts k =
     (if k < length parts \<and> trim (parts ! k) \<noteq> [] then trim (parts ! k) else [])"
  by (auto simp: part_text_def trim_Nil)

lemma begun_original: "i < length sg \<Longrightarrow> original (begun b sg ! i) = original (sg ! i)"
  by (cases "i = last b") (simp_all add: begun_def)

lemma begun_length: "length (begun b sg) = length sg"
  by (simp add: begun_def)


lemma begun_warned_status:
  "seg_status (warned s) = SegWarning \<and> warningMessage (warned s) = Some ''Translation failed''"
  by (simp add: warned_def)


lemma flush_call_fst:
  "fst (flush_call env b st) =
     fst (translateTextSegment env (textToTranslate_of st b) (targetLang (job st))
            (world (sleep 6000 st)))"
  by (simp add: flush_call_def Let_def job_sleep)

lemma failing_env_fails:
  assumes "src \<noteq> []" and "trim src \<noteq> []"
  shows "fst (translateTextSegment failing_env src lang w) = Inl (ApiFailure server_error)"
proof -
  have "\<not> isRateLimit server_error" and "\<not> isServerOverload server_error"
    by (simp_all add: isRateLimit_def isServerOverload_def errorCode_def errorMessage_def
          js_or_def truthy_def server_error_def)
  then have "fst (translate_attempts failing_env src lang 0 w) = Inl (ApiFailure server_error)"
    by (subst translate_attempts.simps) (simp add: MAX_RETRIES_def failing_env_def Let_def)
  with assms show ?thesis by (simp add: translateTextSegment_def)
qed

lemma flush_begin_original:
  "map original (segments (job (flush_begin fileId b st))) = map original (segments (job st))"
proof (cases "last b < length (segments (job st))")
  case True
  then have "(map original (segments (job st)))[last b := original (segments (job st) ! last b)]
             = map original (segments (job st))"
    by (metis list_update_id nth_map)
  then show ?thesis by (simp add: job_flush_begin begun_def map_update)
next
  case False
  then show ?thesis by (simp add: job_flush_begin begun_def list_update_beyond)
qed

lemma flush_all_original:
  "map original (segments (job (flush_all env fileId tot c bs st))) = map original (segments (job st))"
  by (induction bs arbitrary: c st) (simp_all add: flushBatch_original)

lemma before_batch_original:
  "map original (segments (job (flush_begin fileId b (before_batch env fileId st k))))
   = map original (segments (job st))"
  by (simp add: flush_begin_original before_batch_def flush_all_original job_started)

lemma original_at:
  "map original sg = map original sg' \<Longrightarrow> i < length sg' \<Longrightarrow> original (sg ! i) = original (sg' ! i)"
  by (metis length_map nth_map)


subsection \<open>One batch within a run\<close>

lemma run_batches_concat': "concat (run_batches st) = segmentsToProcess_of (job st)"
  by (simp add: run_batches_def run_batches_concat)

lemma processJob_run':
  "processJob env fileId st =
     complete_job fileId
       (flush_all env fileId (length (segmentsToProcess_of (job st))) 0 (run_batches st)
          (started fileId st))"
  by (simp add: processJob_run run_batches_def)

lemma run_batch_valid:
  assumes "k < length (run_batches st)"
  shows "distinct (run_batches st ! k)"
    and "\<forall>i \<in> set (run_batches st ! k). i < length (segments (job (before_batch env fileId st k)))"
    and "run_batches st ! k \<noteq> []"
proof -
  let ?bs = "run_batches st"
  have mem: "?bs ! k \<in> set ?bs" using assms by (rule nth_mem)
  have "distinct (concat ?bs)" by (simp add: run_batches_concat' scope_distinct)
  then show "distinct (?bs ! k)" using mem by (simp add: distinct_concat_iff)
  have "set (?bs ! k) \<subseteq> set (concat ?bs)" using mem by auto
  then have "\<forall>i \<in> set (?bs ! k). i < length (segments (job st))"
    using scope_in_range [of "job st"] by (auto simp: run_batches_concat')
  then show "\<forall>i \<in> set (?bs ! k). i < length (segments (job (before_batch env fileId st k)))"
    by (simp add: before_batch_def flush_all_length job_started)
  show "?bs ! k \<noteq> []"
    using mem unfolding run_batches_def by (rule batches_from_nonempty)
qed

lemma run_batch_effect:
  assumes "k < length (run_batches st)" and "i \<in> set (run_batches st ! k)"
  shows "segments (job (processJob env fileId st)) ! i =
         segments (job (flushBatch env fileId (length (segmentsToProcess_of (job st)))
                          (length (concat (take k (run_batches st)))) (run_batches st ! k)
                          (before_batch env fileId st k))) ! i"
proof -
  let ?bs = "run_batches st"
  let ?tot = "length (segmentsToProcess_of (job st))"
  let ?ck = "length (concat (take k ?bs))"
  let ?Sk = "before_batch env fileId st k"
  let ?after = "flushBatch env fileId ?tot ?ck (?bs ! k) ?Sk"
  have split: "?bs = take k ?bs @ (?bs ! k) # drop (Suc k) ?bs"
    using assms(1) by (simp add: id_take_nth_drop)
  have "flush_all env fileId ?tot 0 ?bs (started fileId st) =
        flush_all env fileId ?tot 0 (take k ?bs @ (?bs ! k) # drop (Suc k) ?bs) (started fileId st)"
    using split by simp
  also have "\<dots> = flush_all env fileId ?tot (?ck + length (?bs ! k)) (drop (Suc k) ?bs) ?after"
    by (simp add: flush_all_append before_batch_def)
  finally have run: "flush_all env fileId ?tot 0 ?bs (started fileId st) =
        flush_all env fileId ?tot (?ck + length (?bs ! k)) (drop (Suc k) ?bs) ?after" .
  have "distinct (concat ?bs)" by (simp add: run_batches_concat' scope_distinct)
  then have "distinct (concat (take k ?bs) @ ?bs ! k @ concat (drop (Suc k) ?bs))"
    by (subst (asm) split) simp
  then have disj: "set (?bs ! k) \<inter> set (concat (drop (Suc k) ?bs)) = {}"
    by auto
  have later: "\<forall>b \<in> set (drop (Suc k) ?bs). b \<noteq> [] \<and> i \<notin> set b"
  proof
    fix b assume b: "b \<in> set (drop (Suc k) ?bs)"
    then have "b \<in> set ?bs" by (rule in_set_dropD)
    then have ne: "b \<noteq> []" unfolding run_batches_def by (rule batches_from_nonempty)
    have "set b \<subseteq> set (concat (drop (Suc k) ?bs))" using b by auto
    with disj assms(2) have "i \<notin> set b" by auto
    with ne show "b \<noteq> [] \<and> i \<notin> set b" by simp
  qed
  have "segments (job (processJob env fileId st)) ! i =
        segments (job (flush_all env fileId ?tot 0 ?bs (started fileId st))) ! i"
    by (simp add: processJob_run' job_complete_job)
  also have "\<dots> = segments (job ?after) ! i"
    unfolding run using later by (rule flush_all_other)
  finally show ?thesis .
qed

subsection \<open>Trimming and splitting\<close>

lemma js_includes_iff: "js_includes s sub \<longleftrightarrow> (\<exists>p q. s = p @ sub @ q)"
proof (induction s)
  case Nil
  then show ?case by auto
next
  case (Cons c cs)
  have "take (length sub) (c # cs) = sub \<longleftrightarrow> (\<exists>q. c # cs = sub @ q)"
  proof
    assume "take (length sub) (c # cs) = sub"
    then have "c # cs = sub @ drop (length sub) (c # cs)"
      by (metis append_take_drop_id)
    then show "\<exists>q. c # cs = sub @ q" ..
  next
    assume "\<exists>q. c # cs = sub @ q"
    then show "take (length sub) (c # cs) = sub" by auto
  qed
  moreover have "(\<exists>p q. c # cs = p @ sub @ q) \<longleftrightarrow> (\<exists>q. c # cs = sub @ q) \<or> (\<exists>p q. cs = p @ sub @ q)"
  proof
    assume "\<exists>p q. c # cs = p @ sub @ q"
    then obtain p q where pq: "c # cs = p @ sub @ q" by blast
    show "(\<exists>q. c # cs = sub @ q) \<or> (\<exists>p q. cs = p @ sub @ q)"
    proof (cases p)
      case Nil
      with pq show ?thesis by auto
    next
      case (Cons a p')
      with pq have "cs = p' @ sub @ q" by simp
      then show ?thesis by blast
    qed
  next
    assume "(\<exists>q. c # cs = sub @ q) \<or> (\<exists>p q. cs = p @ sub @ q)"
    then show "\<exists>p q. c # cs = p @ sub @ q"
    proof
      assume "\<exists>q. c # cs = sub @ q"
      then obtain q where "c # cs = [] @ sub @ q" by auto
      then show ?thesis by blast
    next
      assume "\<exists>p q. cs = p @ sub @ q"
      then obtain p q where "c # cs = (c # p) @ sub @ q" by auto
      then show ?thesis by blast
    qed
  qed
  ultimately show ?case using Cons.IH by simp
qed

lemma no_bars_iff: "no_bars s \<longleftrightarrow> \<not> (\<exists>p q. s = p @ ''|||'' @ q)"
  by (simp add: no_bars_def js_includes_iff)

lemma no_bars_append_left: "no_bars (a @ b) \<Longrightarrow> no_bars a"
  unfolding no_bars_iff by (metis append.assoc)

lemma no_bars_append_right: "no_bars (a @ b) \<Longrightarrow> no_bars b"
  unfolding no_bars_iff by (metis append.assoc)

lemma bar_not_space: "\<not> js_whitespace CHR ''|''"
  by (simp add: js_whitespace_def)

lemma space_is_space: "js_whitespace CHR '' ''"
  by (simp add: js_whitespace_def)

lemma blank_iff: "blank s \<longleftrightarrow> (\<forall>c \<in> set s. js_whitespace c)"
  by (simp add: blank_def list_all_iff)

lemma lstrip_blank: "blank s \<Longrightarrow> lstrip s = []"
  by (simp add: lstrip_def blank_iff)

lemma lstrip_Nil_iff: "lstrip s = [] \<longleftrightarrow> blank s"
  by (simp add: lstrip_def blank_iff)

lemma rstrip_Nil_iff: "rstrip s = [] \<longleftrightarrow> blank s"
  by (simp add: rstrip_def blank_iff)

lemma trim_eq: "trim s = rstrip (lstrip s)"
  by (simp add: trim_def rstrip_def lstrip_def)

lemma rstrip_Cons:
  "rstrip (c # s) = (if blank s \<and> js_whitespace c then [] else c # rstrip s)"
  by (auto simp: rstrip_def blank_iff dropWhile_append)

lemma lstrip_Cons: "lstrip (c # s) = (if js_whitespace c then lstrip s else c # s)"
  by (simp add: lstrip_def)

lemma lstrip_rstrip: "lstrip (rstrip s) = rstrip (lstrip s)"
proof (induction s)
  case Nil
  then show ?case by (simp add: lstrip_def rstrip_def)
next
  case (Cons c s)
  show ?case
  proof (cases "js_whitespace c")
    case True
    show ?thesis
    proof (cases "blank s")
      case True
      with \<open>js_whitespace c\<close> show ?thesis
        by (simp add: rstrip_Cons lstrip_Cons lstrip_blank) (simp add: lstrip_def rstrip_def)
    next
      case False
      with True Cons.IH show ?thesis by (simp add: rstrip_Cons lstrip_Cons)
    qed
  next
    case False
    then show ?thesis by (simp add: rstrip_Cons lstrip_Cons)
  qed
qed

lemma trim_space_Cons: "js_whitespace c \<Longrightarrow> trim (c # s) = trim s"
  by (simp add: trim_eq lstrip_Cons)

lemma rstrip_append_nonspace:
  "\<not> js_whitespace c \<Longrightarrow> rstrip (a @ c # b) = a @ c # rstrip b"
  by (induction a) (simp_all add: rstrip_Cons blank_iff)

lemma lstrip_suffix: "\<exists>u. blank u \<and> s = u @ lstrip s"
proof -
  have "s = takeWhile js_whitespace s @ lstrip s" by (simp add: lstrip_def)
  moreover have "blank (takeWhile js_whitespace s)"
    by (auto simp: blank_iff dest: set_takeWhileD)
  ultimately show ?thesis by blast
qed

lemma rstrip_prefix: "\<exists>u. blank u \<and> s = rstrip s @ u"
proof -
  obtain u where u: "blank u" and s: "rev s = u @ dropWhile js_whitespace (rev s)"
    using lstrip_suffix [of "rev s"] unfolding lstrip_def by blast
  from s have "s = rstrip s @ rev u" unfolding rstrip_def by (metis rev_append rev_rev_ident)
  moreover have "blank (rev u)" using u by (simp add: blank_iff)
  ultimately show ?thesis by blast
qed

lemma no_bars_lstrip: "no_bars s \<Longrightarrow> no_bars (lstrip s)"
  using lstrip_suffix [of s] no_bars_append_right by metis

lemma no_bars_rstrip: "no_bars s \<Longrightarrow> no_bars (rstrip s)"
  using rstrip_prefix [of s] no_bars_append_left by metis

lemma no_bars_trim: "no_bars s \<Longrightarrow> no_bars (trim s)"
  by (simp add: trim_eq no_bars_lstrip no_bars_rstrip)

lemma match_delim_blank:
  "blank u \<Longrightarrow> match_delim (u @ ''|||'' @ v) = Some (lstrip v)"
proof -
  assume "blank u"
  then have "dropWhile js_whitespace (u @ ''|||'' @ v) = ''|||'' @ v"
    by (simp add: blank_iff dropWhile_append bar_not_space)
  then show ?thesis by (simp add: match_delim_def lstrip_def)
qed

lemma match_delim_shape:
  assumes "match_delim s = Some r"
  shows "\<exists>u v. blank u \<and> s = u @ ''|||'' @ v"
proof -
  obtain u where u: "blank u" and s: "s = u @ lstrip s"
    using lstrip_suffix by blast
  from assms have "take 3 (lstrip s) = ''|||''"
    by (simp add: match_delim_def lstrip_def Let_def split: if_splits)
  then have "lstrip s = ''|||'' @ drop 3 (lstrip s)"
    by (metis append_take_drop_id)
  with s have "s = u @ ''|||'' @ drop 3 (lstrip s)" by simp
  with u show ?thesis by blast
qed

lemma match_delim_no_bars: "no_bars s \<Longrightarrow> match_delim s = None"
proof (rule ccontr)
  assume nb: "no_bars s" and "match_delim s \<noteq> None"
  then obtain r where "match_delim s = Some r" by auto
  then obtain u v where "s = u @ ''|||'' @ v" using match_delim_shape by blast
  with nb show False unfolding no_bars_iff by blast
qed

lemma match_delim_inside:
  assumes "no_bars o1" and "\<not> blank o1"
  shows "match_delim (o1 @ CHR '' '' # v) = None"
proof -
  define x where "x = lstrip o1"
  have xne: "x \<noteq> []" using assms(2) by (simp add: x_def lstrip_Nil_iff)
  have nbx: "no_bars x" using assms(1) unfolding x_def by (rule no_bars_lstrip)
  have "\<exists>c \<in> set o1. \<not> js_whitespace c" using assms(2) by (simp add: blank_iff)
  then have d: "dropWhile js_whitespace (o1 @ CHR '' '' # v) = x @ CHR '' '' # v"
    by (auto simp: x_def lstrip_def)
  have "take 3 (x @ CHR '' '' # v) \<noteq> ''|||''"
  proof (cases x)
    case Nil
    with xne show ?thesis by simp
  next
    case a: (Cons a x1)
    show ?thesis
    proof (cases x1)
      case Nil
      with a show ?thesis by simp
    next
      case b: (Cons b x2)
      show ?thesis
      proof (cases x2)
        case Nil
        with a b show ?thesis by simp
      next
        case c: (Cons c x3)
        show ?thesis
        proof
          assume "take 3 (x @ CHR '' '' # v) = ''|||''"
          with a b c have "x = [] @ ''|||'' @ x3" by simp
          with nbx show False unfolding no_bars_iff by blast
        qed
      qed
    qed
  qed
  with d show ?thesis by (simp add: match_delim_def)
qed

lemma rstrip_nonblank_Cons: "\<not> blank (c # s) \<Longrightarrow> rstrip (c # s) = c # rstrip s"
  by (auto simp: rstrip_Cons blank_iff)

lemma split_from_delim:
  "no_bars o1 \<Longrightarrow>
   split_from cur (o1 @ '' |||'' @ v) = (cur @ rstrip o1) # split_from [] (lstrip v)"
proof (induction o1 arbitrary: cur)
  case Nil
  have "match_delim ('' |||'' @ v) = Some (lstrip v)"
    using match_delim_blank [of "'' ''" v] by (simp add: blank_iff space_is_space)
  then show ?case by (simp add: rstrip_def)
next
  case (Cons c o1)
  show ?case
  proof (cases "blank (c # o1)")
    case True
    then have "blank ((c # o1) @ '' '')" by (simp add: blank_iff space_is_space)
    then have "match_delim (((c # o1) @ '' '') @ ''|||'' @ v) = Some (lstrip v)"
      by (rule match_delim_blank)
    moreover have "rstrip (c # o1) = []" using True by (simp add: rstrip_Nil_iff)
    ultimately show ?thesis by simp
  next
    case False
    have "match_delim ((c # o1) @ CHR '' '' # (''|||'' @ v)) = None"
      using Cons.prems False by (rule match_delim_inside)
    moreover have "no_bars o1"
      using Cons.prems no_bars_append_right [of "[c]" o1] by simp
    ultimately show ?thesis
      using Cons.IH [of "cur @ [c]"] False by (simp add: rstrip_nonblank_Cons)
  qed
qed

lemma split_from_bars:
  "split_from cur (''|||'' @ v) = cur # split_from [] (lstrip v)"
proof -
  have "match_delim ([] @ ''|||'' @ v) = Some (lstrip v)"
    by (rule match_delim_blank) (simp add: blank_iff)
  then show ?thesis by simp
qed

lemma split_from_no_bars: "no_bars s \<Longrightarrow> split_from cur s = [cur @ s]"
proof (induction s arbitrary: cur)
  case Nil
  then show ?case by simp
next
  case (Cons c s)
  have "match_delim (c # s) = None" using Cons.prems by (rule match_delim_no_bars)
  moreover have "no_bars s" using Cons.prems no_bars_append_right [of "[c]" s] by simp
  ultimately show ?case using Cons.IH [of "cur @ [c]"] by simp
qed

lemma lstrip_blank_bars: "blank u \<Longrightarrow> lstrip (u @ ''|||'' @ v) = ''|||'' @ v"
  by (simp add: lstrip_def blank_iff dropWhile_append bar_not_space)

lemma lstrip_nonblank_append: "\<not> blank a \<Longrightarrow> lstrip (a @ b) = lstrip a @ b"
  by (auto simp: lstrip_def blank_iff)

lemma split_trim_join:
  "os \<noteq> [] \<Longrightarrow> \<forall>x \<in> set os. no_bars x \<Longrightarrow>
   split_delim (trim (js_join DELIMITER os)) = map trim os"
proof (induction DELIMITER os rule: js_join.induct)
  case 1
  then show ?case by simp
next
  case (2 x)
  then have "no_bars (trim x)" by (simp add: no_bars_trim)
  then show ?case by (simp add: split_delim_def split_from_no_bars)
next
  case (3 x y ys)
  let ?J = "js_join DELIMITER (y # ys)"
  have IH: "split_from [] (trim ?J) = map trim (y # ys)"
    using 3 by (simp add: split_delim_def)
  have nbx: "no_bars x" using "3.prems" by simp
  have joined: "js_join DELIMITER (x # y # ys) = x @ '' |||'' @ CHR '' '' # ?J"
    by (simp add: DELIMITER_def)
  have rest: "lstrip (rstrip (CHR '' '' # ?J)) = trim ?J"
    by (simp add: lstrip_rstrip trim_eq lstrip_Cons space_is_space)
  show ?case
  proof (cases "blank x")
    case True
    then have "blank (x @ '' '')" by (simp add: blank_iff space_is_space)
    then have "lstrip ((x @ '' '') @ ''|||'' @ CHR '' '' # ?J) = ''|||'' @ CHR '' '' # ?J"
      by (rule lstrip_blank_bars)
    then have "trim (js_join DELIMITER (x # y # ys)) = rstrip (''||'' @ CHR ''|'' # CHR '' '' # ?J)"
      unfolding trim_eq joined by simp
    also have "\<dots> = ''||'' @ CHR ''|'' # rstrip (CHR '' '' # ?J)"
      using bar_not_space by (rule rstrip_append_nonspace)
    finally have t: "trim (js_join DELIMITER (x # y # ys)) = ''|||'' @ rstrip (CHR '' '' # ?J)"
      by simp
    have "trim x = []" using True by (simp add: trim_eq lstrip_blank rstrip_def)
    then show ?thesis
      unfolding split_delim_def t split_from_bars rest IH by simp
  next
    case False
    then have "lstrip (x @ '' |||'' @ CHR '' '' # ?J) = lstrip x @ '' |||'' @ CHR '' '' # ?J"
      by (rule lstrip_nonblank_append)
    then have "trim (js_join DELIMITER (x # y # ys))
               = rstrip ((lstrip x @ '' ||'') @ CHR ''|'' # CHR '' '' # ?J)"
      unfolding trim_eq joined by simp
    also have "\<dots> = (lstrip x @ '' ||'') @ CHR ''|'' # rstrip (CHR '' '' # ?J)"
      using bar_not_space by (rule rstrip_append_nonspace)
    finally have t: "trim (js_join DELIMITER (x # y # ys))
                     = lstrip x @ '' |||'' @ rstrip (CHR '' '' # ?J)"
      by simp
    have "no_bars (lstrip x)" using nbx by (rule no_bars_lstrip)
    then have "split_from [] (lstrip x @ '' |||'' @ rstrip (CHR '' '' # ?J))
               = ([] @ rstrip (lstrip x)) # split_from [] (lstrip (rstrip (CHR '' '' # ?J)))"
      by (rule split_from_delim)
    then show ?thesis
      unfolding split_delim_def t rest IH by (simp add: trim_eq)
  qed
qed

subsection \<open>A remote model that echoes\<close>

lemma trim_Nil_iff: "trim s = [] \<longleftrightarrow> blank s"
proof
  assume "trim s = []"
  then have "blank (lstrip s)" by (simp add: trim_eq rstrip_Nil_iff)
  moreover have "lstrip s \<noteq> [] \<Longrightarrow> \<not> js_whitespace (hd (lstrip s))"
    unfolding lstrip_def by (rule hd_dropWhile)
  ultimately have "lstrip s = []"
    by (cases "lstrip s") (auto simp: blank_iff)
  then show "blank s" by (simp add: lstrip_Nil_iff)
next
  assume "blank s"
  then show "trim s = []" by (simp add: trim_eq lstrip_blank rstrip_def)
qed

lemma trim_trim: "trim (trim s) = trim s"
proof -
  have l: "lstrip (lstrip s) = lstrip s" by (simp add: lstrip_def)
  have r: "rstrip (rstrip t) = rstrip t" for t by (simp add: rstrip_def)
  have "trim (trim s) = rstrip (lstrip (rstrip (lstrip s)))" by (simp add: trim_eq)
  also have "\<dots> = rstrip (rstrip (lstrip (lstrip s)))" by (simp add: lstrip_rstrip)
  also have "\<dots> = trim s" by (simp add: l r trim_eq)
  finally show ?thesis .
qed

lemma join_two_not_blank: "\<not> blank (js_join DELIMITER (x # y # ys))"
  by (simp add: blank_iff DELIMITER_def bar_not_space)

lemma part_text_of_echo:
  assumes "os \<noteq> []" and "\<forall>x \<in> set os. no_bars x" and "k < length os"
  shows "part_text (split_delim (if trim (js_join DELIMITER os) = [] then js_join DELIMITER os
                                 else trim (js_join DELIMITER os))) k = trim (os ! k)"
proof (cases "trim (js_join DELIMITER os) = []")
  case False
  then show ?thesis
    using assms by (simp add: split_trim_join part_text_eq trim_trim)
next
  case True
  then have b: "blank (js_join DELIMITER os)" by (simp add: trim_Nil_iff)
  obtain x where os: "os = [x]"
  proof (cases os)
    case Nil
    with assms(1) show ?thesis by simp
  next
    case (Cons x xs)
    show ?thesis
    proof (cases xs)
      case Nil
      with Cons that show ?thesis by simp
    next
      case (Cons y ys)
      with \<open>os = x # xs\<close> b join_two_not_blank show ?thesis by simp
    qed
  qed
  with assms(2) have "no_bars x" by simp
  then have "split_delim x = [x]" by (simp add: split_delim_def split_from_no_bars)
  moreover have "trim x = []" using True os by simp
  ultimately show ?thesis using True os assms(3) by (simp add: part_text_eq)
qed

lemma echo_answer:
  assumes "remote env (net_calls w) lang src = Response (Some src)"
  shows "fst (translateTextSegment env src lang w) = Inr (if trim src = [] then src else trim src)"
proof (cases "src = [] \<or> trim src = []")
  case True
  then show ?thesis by (auto simp: translateTextSegment_def trim_Nil)
next
  case False
  have "fst (translate_attempts env src lang 0 w) = Inr (trim src)"
    using assms False
    by (subst translate_attempts.simps) (simp add: MAX_RETRIES_def Let_def response_text_def)
  with False show ?thesis by (simp add: translateTextSegment_def)
qed

lemma text_of_batch:
  assumes "\<forall>i \<in> set b. i < length (segments (job st))"
  shows "textToTranslate_of (flush_begin fileId b st) b =
         js_join DELIMITER (map (\<lambda>i. original (segments (job st) ! i)) b)"
proof -
  have "original (segments (job (flush_begin fileId b st)) ! i) = original (segments (job st) ! i)"
    if "i \<in> set b" for i
    using flush_begin_original that assms by (intro original_at) simp_all
  then have "map (\<lambda>s. original (segment_at (flush_begin fileId b st) s)) b
             = map (\<lambda>i. original (segments (job st) ! i)) b"
    by (simp add: segment_at_def)
  then show ?thesis unfolding textToTranslate_of_def by (rule arg_cong)
qed

lemma text_of_batch_same:
  assumes "\<forall>i \<in> set b. i < length (segments (job st))"
  shows "textToTranslate_of (flush_begin fileId b st) b = textToTranslate_of st b"
  using text_of_batch [OF assms] by (simp add: textToTranslate_of_def segment_at_def)

lemma world_flush_begin_calls:
  "net_calls (world (sleep ms (flush_begin fileId b st))) = net_calls (world st)"
  by (simp add: world_sleep flush_begin_eq Let_def)

lemma job_flush_begin_lang: "targetLang (job (flush_begin fileId b st)) = targetLang (job st)"
  by (simp add: job_flush_begin)


section \<open>Properties of the reassembler\<close>

lemmas para_eval = runNodes_of_def candidateNodes_of_def select_dominant_def dominant_step_def
  hello_world_runs_def fresh_run_def hasMeaningfulContent_def js_whitespace_def trim_def
  clear_others_def pass2_paragraph_def pass1_node_def reassemble_paragraph_def Let_def
  upt_rec[of 0] upt_rec[of 1] upt_rec[of 2] upt_rec[of 3] upt_rec[of "Suc 0"]

lemma dominant_invariant:
  "cs \<noteq> [] \<Longrightarrow>
   \<exists>k < length cs. snd (foldl (dominant_step p) (-1, d0) cs) = cs ! k
     \<and> fst (foldl (dominant_step p) (-1, d0) cs) = int (length (textContent (p ! (cs ! k))))
     \<and> (\<forall>k' < k. length (textContent (p ! (cs ! k'))) < length (textContent (p ! (cs ! k))))
     \<and> (\<forall>k' < length cs. length (textContent (p ! (cs ! k'))) \<le> length (textContent (p ! (cs ! k))))"
proof (induction cs rule: rev_induct)
  case Nil
  then show ?case by simp
next
  case (snoc c cs)
  let ?len = "\<lambda>n. length (textContent (p ! n))"
  show ?case
  proof (cases "cs = []")
    case True
    then show ?thesis by (simp add: dominant_step_def)
  next
    case False
    define acc where "acc = foldl (dominant_step p) (-1, d0) cs"
    have step: "foldl (dominant_step p) (-1, d0) (cs @ [c]) = dominant_step p acc c"
      by (simp add: acc_def)
    from snoc.IH [OF False] obtain k where k: "k < length cs"
      and sk: "snd acc = cs ! k"
      and fk: "fst acc = int (?len (cs ! k))"
      and before: "\<forall>k' < k. ?len (cs ! k') < ?len (cs ! k)"
      and all: "\<forall>k' < length cs. ?len (cs ! k') \<le> ?len (cs ! k)"
      unfolding acc_def by blast
    show ?thesis
    proof (cases "?len c > ?len (cs ! k)")
      case True
      have "\<forall>k' < length cs. ?len ((cs @ [c]) ! k') < ?len c"
        using all True by (auto simp: nth_append intro: le_less_trans)
      moreover have "\<forall>k' < length (cs @ [c]). ?len ((cs @ [c]) ! k') \<le> ?len c"
        using all True by (auto simp: nth_append less_Suc_eq intro: less_imp_le le_less_trans)
      moreover have "dominant_step p acc c = (int (?len c), c)"
        using True fk by (simp add: dominant_step_def Let_def)
      ultimately show ?thesis
        unfolding step by (intro exI [of _ "length cs"]) simp
    next
      case False
      have "\<forall>k' < length (cs @ [c]). ?len ((cs @ [c]) ! k') \<le> ?len ((cs @ [c]) ! k)"
        using all False k by (auto simp: nth_append less_Suc_eq)
      moreover have "\<forall>k' < k. ?len ((cs @ [c]) ! k') < ?len ((cs @ [c]) ! k)"
        using before k by (auto simp: nth_append)
      moreover have "dominant_step p acc c = acc"
        using False fk by (simp add: dominant_step_def Let_def)
      ultimately show ?thesis
        unfolding step using fk sk k
        by (intro exI [of _ k]) (simp add: nth_append)
    qed
  qed
qed

lemma select_dominant_longest_first:
  assumes "cs \<noteq> []"
  shows "\<exists>k < length cs. select_dominant p cs = cs ! k
     \<and> (\<forall>k' < k. length (textContent (p ! (cs ! k'))) < length (textContent (p ! (cs ! k))))
     \<and> (\<forall>k' < length cs. length (textContent (p ! (cs ! k'))) \<le> length (textContent (p ! (cs ! k))))"
  using dominant_invariant [OF assms, of p "hd cs"] unfolding select_dominant_def by blast

text \<open>
  With both passes: when no run of the example is a key of the map by itself, pass 1
  leaves the three runs alone and pass 2 decides.
\<close>

lemma hello_world_both_passes:
  assumes "translationMap ''Hello world!!!'' = Some t"
    and "translationMap ''Hello'' = None" and "translationMap ''world'' = None"
    and "translationMap ''!!!'' = None"
  shows "map textContent (reassemble_paragraph translationMap hello_world_runs) = [t, [], []]"
  using assms by (simp add: para_eval)

text \<open>
  Claim C1, as the code has it. In the paragraph with the runs \<open>Hello \<close>, \<open>world\<close> and
  \<open>!!!\<close>, none substituted, all three runs pass \<open>hasMeaningfulContent\<close> (punctuation is
  neither white space nor an underscore), so all three are candidates; the longest of them
  is the first run, \<open>Hello \<close> with six characters, and it is the dominant node. When the
  trimmed concatenation is a key of the translation map, pass 2 writes the translation
  into that first run and empties \<open>world\<close> and \<open>!!!\<close>.
\<close>

theorem dominant_of_hello_world:
  assumes "translationMap ''Hello world!!!'' = Some t"
  shows "runNodes_of hello_world_runs = [0, 1, 2]
       \<and> candidateNodes_of hello_world_runs = [0, 1, 2]
       \<and> select_dominant hello_world_runs (candidateNodes_of hello_world_runs) = 0
       \<and> map textContent (pass2_paragraph translationMap hello_world_runs) = [t, [], []]"
  using assms by (simp add: para_eval)

theorem dominant_of_hello_world_witness:
  "[''Hello world!!!'' \<mapsto> ''Bonjour le monde!!!''] ''Hello world!!!'' = Some ''Bonjour le monde!!!''
   \<and> map textContent (pass2_paragraph [''Hello world!!!'' \<mapsto> ''Bonjour le monde!!!''] hello_world_runs)
       = [''Bonjour le monde!!!'', [], []]"
  using dominant_of_hello_world [of "[''Hello world!!!'' \<mapsto> ''Bonjour le monde!!!'']" "''Bonjour le monde!!!''"]
  by simp

text \<open>
  Claim C1 as it was stated fails: the run chosen in that paragraph is \<open>Hello \<close>, not
  \<open>world\<close>.
\<close>

theorem dominant_is_not_world:
  "textContent (hello_world_runs ! select_dominant hello_world_runs (candidateNodes_of hello_world_runs))
     = ''Hello ''
   \<and> textContent (hello_world_runs ! select_dominant hello_world_runs (candidateNodes_of hello_world_runs))
     \<noteq> ''world''"
  by (simp add: para_eval)

section \<open>The retry contract of the translation client\<close>

text \<open>
  Claim C2. A call of \<open>translateTextSegment\<close> with text that is not blank makes \<open>n\<close>
  network calls, at least one and at most five. Every call but the last failed with a
  failure classified as throttling or overload, and was followed by a wait of
  \<open>10000 * 2 ^ k + random * 2000\<close> milliseconds, \<open>k\<close> counting the attempts from 0; with
  the random value in \<open>[0, 1)\<close> the wait lies in \<open>[10000 * 2 ^ k, 10000 * 2 ^ k + 2000)\<close>.
  The last call decides the result: its answer is returned; its failure is thrown, and
  when that failure is a throttling or overload failure it was the fifth attempt. So
  such a failure is retried as long as attempts remain and thrown after the fifth, and
  any other failure is thrown at once.
\<close>

theorem translate_retry_contract:
  assumes "src \<noteq> []" and "trim src \<noteq> []"
  shows "\<exists>n. 1 \<le> n \<and> n \<le> 5
     \<and> net_calls (snd (translateTextSegment env src lang w)) = net_calls w + n
     \<and> sleeps (snd (translateTextSegment env src lang w))
         = sleeps w @ map (\<lambda>k. 10000 * 2 ^ k + random env (rand_draws w + k) * 2000) [0..<n - 1]
     \<and> (\<forall>k < n - 1. \<exists>e. remote env (net_calls w + k) lang src = Failure e
                          \<and> (isRateLimit e \<or> isServerOverload e))
     \<and> (case remote env (net_calls w + (n - 1)) lang src of
           Response t \<Rightarrow> fst (translateTextSegment env src lang w) = Inr (response_text t src)
         | Failure e \<Rightarrow> fst (translateTextSegment env src lang w) = Inl (ApiFailure e)
                        \<and> (isRateLimit e \<or> isServerOverload e \<longrightarrow> n = 5))
     \<and> ((\<forall>d. 0 \<le> random env d \<and> random env d < 1) \<longrightarrow>
          (\<forall>k < n - 1.
             10000 * 2 ^ k \<le> sleeps (snd (translateTextSegment env src lang w)) ! (length (sleeps w) + k)
             \<and> sleeps (snd (translateTextSegment env src lang w)) ! (length (sleeps w) + k)
                 < 10000 * 2 ^ k + 2000))"
proof -
  let ?R = "translate_attempts env src lang 0 w"
  have eq: "translateTextSegment env src lang w = ?R"
    using assms by (simp add: translateTextSegment_def)
  have "0 < MAX_RETRIES" by (simp add: MAX_RETRIES_def)
  from translate_attempts_spec [OF this, of env src lang w]
  obtain n where n0: "1 \<le> n \<and> 0 + n \<le> MAX_RETRIES"
    and nc0: "net_calls (snd ?R) = net_calls w + n"
    and sl0: "sleeps (snd ?R) = sleeps w @ map (\<lambda>k. backoffTime env (0 + k) (rand_draws w + k)) [0..<n - 1]"
    and before: "\<forall>k < n - 1. \<exists>e. remote env (net_calls w + k) lang src = Failure e \<and> retryable e"
    and lastc: "case remote env (net_calls w + (n - 1)) lang src of
           Response t \<Rightarrow> fst ?R = Inr (response_text t src)
         | Failure e \<Rightarrow> fst ?R = Inl (ApiFailure e) \<and> (retryable e \<longrightarrow> 0 + n = MAX_RETRIES)"
    by blast
  have n: "1 \<le> n" "n \<le> 5" using n0 by (simp_all add: MAX_RETRIES_def)
  have nc: "net_calls (snd ?R) = net_calls w + n" by (rule nc0)
  have sl: "sleeps (snd ?R) = sleeps w @ map (\<lambda>k. backoffTime env k (rand_draws w + k)) [0..<n - 1]"
    using sl0 by simp
  have nth: "\<forall>k < n - 1. sleeps (snd ?R) ! (length (sleeps w) + k)
                = 10000 * 2 ^ k + random env (rand_draws w + k) * 2000"
    unfolding sl by (simp add: backoffTime_def)
  have jitter: "(\<forall>d. 0 \<le> random env d \<and> random env d < 1) \<longrightarrow>
          (\<forall>k < n - 1. 10000 * 2 ^ k \<le> sleeps (snd ?R) ! (length (sleeps w) + k)
             \<and> sleeps (snd ?R) ! (length (sleeps w) + k) < 10000 * 2 ^ k + 2000)"
  proof (intro impI allI)
    fix k
    assume r: "\<forall>d. 0 \<le> random env d \<and> random env d < 1" and k: "k < n - 1"
    from r have "0 \<le> random env (rand_draws w + k)" and "random env (rand_draws w + k) < 1"
      by simp_all
    then have "0 \<le> random env (rand_draws w + k) * 2000"
      and "random env (rand_draws w + k) * 2000 < 2000"
      by simp_all
    with nth k show "10000 * 2 ^ k \<le> sleeps (snd ?R) ! (length (sleeps w) + k)
             \<and> sleeps (snd ?R) ! (length (sleeps w) + k) < 10000 * 2 ^ k + 2000"
      by simp
  qed
  have sl': "sleeps (snd ?R)
         = sleeps w @ map (\<lambda>k. 10000 * 2 ^ k + random env (rand_draws w + k) * 2000) [0..<n - 1]"
    unfolding sl by (simp add: backoffTime_def)
  have lastc': "case remote env (net_calls w + (n - 1)) lang src of
           Response t \<Rightarrow> fst ?R = Inr (response_text t src)
         | Failure e \<Rightarrow> fst ?R = Inl (ApiFailure e)
                        \<and> (isRateLimit e \<or> isServerOverload e \<longrightarrow> n = 5)"
    using lastc by (auto simp: retryable_def MAX_RETRIES_def split: Outcome.splits)
  have before': "\<forall>k < n - 1. \<exists>e. remote env (net_calls w + k) lang src = Failure e
                          \<and> (isRateLimit e \<or> isServerOverload e)"
    using before by (simp add: retryable_def)
  show ?thesis
    unfolding eq using n nc sl' before' lastc' jitter by blast
qed


theorem translate_retry_contract_witness:
  "''Hello'' \<noteq> [] \<and> trim ''Hello'' \<noteq> []
   \<and> (\<forall>d. 0 \<le> random flaky_env d \<and> random flaky_env d < 1)
   \<and> (\<exists>n. 1 \<le> n \<and> n \<le> 5
        \<and> net_calls (snd (translateTextSegment flaky_env ''Hello'' ''fr'' empty_world))
            = net_calls empty_world + n
        \<and> (\<forall>k < n - 1.
             10000 * 2 ^ k \<le> sleeps (snd (translateTextSegment flaky_env ''Hello'' ''fr'' empty_world))
                                ! (length (sleeps empty_world) + k)
             \<and> sleeps (snd (translateTextSegment flaky_env ''Hello'' ''fr'' empty_world))
                  ! (length (sleeps empty_world) + k) < 10000 * 2 ^ k + 2000))
   \<and> translateTextSegment flaky_env ''Hello'' ''fr'' empty_world =
       (Inr ''Bonjour'',
        \<lparr>events = [], net_calls = 3, sleeps = [10000 + 1000, 20000 + 1000], rand_draws = 2\<rparr>)"
proof -
  have h1: "''Hello'' \<noteq> []" by simp
  have h2: "trim ''Hello'' \<noteq> []" by (simp add: trim_def js_whitespace_def)
  have r: "\<forall>d. 0 \<le> random flaky_env d \<and> random flaky_env d < 1"
    by (simp add: flaky_env_def)
  from translate_retry_contract [OF h1 h2, of flaky_env "''fr''" empty_world] r
  have "\<exists>n. 1 \<le> n \<and> n \<le> 5
        \<and> net_calls (snd (translateTextSegment flaky_env ''Hello'' ''fr'' empty_world))
            = net_calls empty_world + n
        \<and> (\<forall>k < n - 1.
             10000 * 2 ^ k \<le> sleeps (snd (translateTextSegment flaky_env ''Hello'' ''fr'' empty_world))
                                ! (length (sleeps empty_world) + k)
             \<and> sleeps (snd (translateTextSegment flaky_env ''Hello'' ''fr'' empty_world))
                  ! (length (sleeps empty_world) + k) < 10000 * 2 ^ k + 2000)"
    by blast
  with h1 h2 r flaky_run show ?thesis by blast
qed

section \<open>The translation scope\<close>

lemma map_nth_filter: "map (\<lambda>i. xs ! i) (filter (\<lambda>i. P (xs ! i)) [0..<length xs]) = filter P xs"
proof -
  have "filter P xs = filter P (map (\<lambda>i. xs ! i) [0..<length xs])"
    by (simp add: map_nth)
  also have "\<dots> = map (\<lambda>i. xs ! i) (filter (\<lambda>i. P (xs ! i)) [0..<length xs])"
    by (simp add: filter_map comp_def)
  finally show ?thesis by simp
qed

lemma scope_of_range:
  assumes "selectedRange j = Some r" and "pageCount j = Some pc" and "pc \<noteq> 0"
  shows "segmentsToProcess_of j =
         filter (\<lambda>i. in_buffer (max 1 (range_start r - 1)) (min pc (range_end r + 1)) (segments j ! i))
           [0..<length (segments j)]"
  using assms by (simp add: segmentsToProcess_of_def)

text \<open>
  Claim C3. For a job with a selected range and a page count that is set (and not zero,
  which counts as not set), the segments processed are exactly the job's segments whose
  page number is defined and lies between \<open>max 1 (start - 1)\<close> and
  \<open>min pageCount (end + 1)\<close>, in their order; a segment without a page number is never among
  them. With twenty pages and the range 5 to 15 these are the segments on pages 4 to 16.
\<close>

theorem scope_is_buffered_window:
  assumes "selectedRange j = Some r" and "pageCount j = Some pc" and "pc \<noteq> 0"
  shows "map (\<lambda>i. segments j ! i) (segmentsToProcess_of j) =
           filter (\<lambda>s. case pageNumber s of
                         None \<Rightarrow> False
                       | Some n \<Rightarrow> max 1 (range_start r - 1) \<le> n \<and> n \<le> min pc (range_end r + 1))
             (segments j)
       \<and> (\<forall>i. i \<in> set (segmentsToProcess_of j) \<longleftrightarrow>
              i < length (segments j)
              \<and> (\<exists>n. pageNumber (segments j ! i) = Some n
                    \<and> max 1 (range_start r - 1) \<le> n \<and> n \<le> min pc (range_end r + 1)))
       \<and> (pc = 20 \<and> range_start r = 5 \<and> range_end r = 15 \<longrightarrow>
            (\<forall>i. i \<in> set (segmentsToProcess_of j) \<longleftrightarrow>
               i < length (segments j)
               \<and> (\<exists>n. pageNumber (segments j ! i) = Some n \<and> 4 \<le> n \<and> n \<le> 16)))"
proof -
  let ?lo = "max 1 (range_start r - 1)" and ?hi = "min pc (range_end r + 1)"
  have s: "segmentsToProcess_of j =
           filter (\<lambda>i. in_buffer ?lo ?hi (segments j ! i)) [0..<length (segments j)]"
    using assms by (rule scope_of_range)
  have b: "in_buffer ?lo ?hi = (\<lambda>s. case pageNumber s of None \<Rightarrow> False | Some n \<Rightarrow> ?lo \<le> n \<and> n \<le> ?hi)"
    by (rule ext) (simp add: in_buffer_def)
  have 1: "map (\<lambda>i. segments j ! i) (segmentsToProcess_of j) = filter (in_buffer ?lo ?hi) (segments j)"
    unfolding s by (rule map_nth_filter)
  have 2: "\<forall>i. i \<in> set (segmentsToProcess_of j) \<longleftrightarrow>
              i < length (segments j)
              \<and> (\<exists>n. pageNumber (segments j ! i) = Some n \<and> ?lo \<le> n \<and> n \<le> ?hi)"
    unfolding s by (auto simp: in_buffer_def split: option.splits)
  have 3: "pc = 20 \<and> range_start r = 5 \<and> range_end r = 15 \<longrightarrow>
            (\<forall>i. i \<in> set (segmentsToProcess_of j) \<longleftrightarrow>
               i < length (segments j)
               \<and> (\<exists>n. pageNumber (segments j ! i) = Some n \<and> 4 \<le> n \<and> n \<le> 16))"
  proof
    assume "pc = 20 \<and> range_start r = 5 \<and> range_end r = 15"
    then have "?lo = 4" and "?hi = 16" by simp_all
    with 2 show "\<forall>i. i \<in> set (segmentsToProcess_of j) \<longleftrightarrow>
               i < length (segments j)
               \<and> (\<exists>n. pageNumber (segments j ! i) = Some n \<and> 4 \<le> n \<and> n \<le> 16)"
      by simp
  qed
  from 1 2 3 show ?thesis unfolding b by blast
qed

theorem scope_is_buffered_window_witness:
  "selectedRange range_job = Some \<lparr>range_start = 5, range_end = 15\<rparr>
   \<and> pageCount range_job = Some 20 \<and> (20::int) \<noteq> 0
   \<and> map seg_id (map (\<lambda>i. segments range_job ! i) (segmentsToProcess_of range_job)) = [''s1'', ''s2'', ''s3'']"
  using scope_is_buffered_window [of range_job "\<lparr>range_start = 5, range_end = 15\<rparr>" 20]
  by (simp add: range_job_def queued_job_def fresh_segment_def)

section \<open>A batch whose call fails\<close>

text \<open>
  Claim C4. Take any batch of the run of a job, in the state in which the run flushes it.
  When the translation client throws on that batch (it throws after its retries are used
  up, or at once on a failure it does not retry), every segment of the batch has status
  \<open>warning\<close> and the warning message \<open>Translation failed\<close> in the job the run ends with.
  Whatever the calls do, the run is the flush of every batch in order followed by the
  completion of the job: the batches cover the whole scope, every segment in scope ends
  \<open>completed\<close> or \<open>warning\<close>, and the job ends with status \<open>completed\<close>.
\<close>

theorem failed_batch_warns_and_run_goes_on:
  "(\<forall>k < length (run_batches st). \<forall>e.
      fst (flush_call env (run_batches st ! k)
             (flush_begin fileId (run_batches st ! k) (before_batch env fileId st k))) = Inl e \<longrightarrow>
      (\<forall>i \<in> set (run_batches st ! k).
         seg_status (segments (job (processJob env fileId st)) ! i) = SegWarning
         \<and> warningMessage (segments (job (processJob env fileId st)) ! i) = Some ''Translation failed''))
   \<and> processJob env fileId st =
       complete_job fileId
         (flush_all env fileId (length (segmentsToProcess_of (job st))) 0 (run_batches st)
            (started fileId st))
   \<and> concat (run_batches st) = segmentsToProcess_of (job st)
   \<and> (\<forall>i \<in> set (segmentsToProcess_of (job st)).
         seg_status (segments (job (processJob env fileId st)) ! i) = SegCompleted
         \<or> seg_status (segments (job (processJob env fileId st)) ! i) = SegWarning)
   \<and> job_status (job (processJob env fileId st)) = JobCompleted"
proof -
  let ?bs = "run_batches st"
  let ?tot = "length (segmentsToProcess_of (job st))"
  let ?final = "segments (job (processJob env fileId st))"
  have failed: "seg_status (?final ! i) = SegWarning
                \<and> warningMessage (?final ! i) = Some ''Translation failed''"
    if k: "k < length ?bs" and i: "i \<in> set (?bs ! k)"
      and e: "fst (flush_call env (?bs ! k) (flush_begin fileId (?bs ! k) (before_batch env fileId st k))) = Inl e"
    for k i e
  proof -
    have "?final ! i = segments (job (flushBatch env fileId ?tot (length (concat (take k ?bs))) (?bs ! k)
                          (before_batch env fileId st k))) ! i"
      using k i by (rule run_batch_effect)
    also have "\<dots> = warned (begun (?bs ! k) (segments (job (before_batch env fileId st k))) ! i)"
      using e run_batch_valid(1) [OF k] run_batch_valid(2) [OF k] i by (rule flushBatch_failed)
    finally show ?thesis by (simp add: begun_warned_status)
  qed
  have attempted: "seg_status (?final ! i) = SegCompleted \<or> seg_status (?final ! i) = SegWarning"
    if "i \<in> set (segmentsToProcess_of (job st))" for i
  proof -
    from that have "i \<in> set (concat ?bs)" by (simp add: run_batches_concat')
    then obtain b where "b \<in> set ?bs" and ib: "i \<in> set b" by auto
    then obtain k where k: "k < length ?bs" and b: "?bs ! k = b"
      by (auto simp: in_set_conv_nth)
    from ib b obtain m where m: "m < length (?bs ! k)" and im: "?bs ! k ! m = i"
      by (auto simp: in_set_conv_nth)
    let ?Sk = "before_batch env fileId st k"
    have eff: "?final ! i = segments (job (flushBatch env fileId ?tot (length (concat (take k ?bs)))
                              (?bs ! k) ?Sk)) ! i"
      using k ib b by (intro run_batch_effect) simp_all
    show ?thesis
    proof (cases "fst (flush_call env (?bs ! k) (flush_begin fileId (?bs ! k) ?Sk))")
      case (Inl e)
      from failed [OF k _ Inl, of i] ib b show ?thesis by simp
    next
      case (Inr block)
      have "segments (job (flushBatch env fileId ?tot (length (concat (take k ?bs))) (?bs ! k) ?Sk))
              ! (?bs ! k ! m)
            = completed_with (split_delim block) m (begun (?bs ! k) (segments (job ?Sk)) ! (?bs ! k ! m))"
        using Inr run_batch_valid(1) [OF k] run_batch_valid(2) [OF k] m
        by (rule flushBatch_translated)
      with eff im show ?thesis by (simp add: completed_with_def)
    qed
  qed
  have run: "processJob env fileId st =
       complete_job fileId (flush_all env fileId ?tot 0 ?bs (started fileId st))"
    by (rule processJob_run')
  have fin: "job_status (job (processJob env fileId st)) = JobCompleted"
    by (simp add: run job_complete_job)
  have cc: "concat ?bs = segmentsToProcess_of (job st)" by (rule run_batches_concat')
  from failed attempted run fin cc show ?thesis by blast
qed

lemma long_originals:
  "original (segments (job long_state) ! 0) = replicate 2000 (CHR ''x'')"
  "original (segments (job long_state) ! Suc 0) = ''B''"
  "length (segments (job long_state)) = 2"
  by (simp_all add: job_eval)

lemma long_calls_fail:
  assumes "k < 2"
  shows "fst (flush_call failing_env (run_batches long_state ! k)
           (flush_begin ''f'' (run_batches long_state ! k) (before_batch failing_env ''f'' long_state k)))
         = Inl (ApiFailure server_error)"
proof -
  let ?S = "\<lambda>k. flush_begin ''f'' (run_batches long_state ! k) (before_batch failing_env ''f'' long_state k)"
  have o: "original (segments (job (?S k)) ! i) = original (segments (job long_state) ! i)" if "i < 2" for i k
  proof (rule original_at)
    show "map original (segments (job (?S k))) = map original (segments (job long_state))"
      by (rule before_batch_original)
    show "i < length (segments (job long_state))" using that by (simp add: long_originals)
  qed
  from assms have "k = 0 \<or> k = 1" by auto
  then show ?thesis
  proof
    assume k: "k = 0"
    have "textToTranslate_of (?S 0) [0] = replicate 2000 (CHR ''x'')"
      by (simp add: textToTranslate_of_def segment_at_def o long_originals)
    then show ?thesis
      unfolding k flush_call_fst long_run_batches
      by (simp add: failing_env_fails trim_def js_whitespace_def long_run_batches)
  next
    assume k: "k = 1"
    have "textToTranslate_of (?S 1) [1] = ''B''"
      by (simp add: textToTranslate_of_def segment_at_def o long_originals)
    then show ?thesis
      unfolding k flush_call_fst long_run_batches
      by (simp add: failing_env_fails trim_def js_whitespace_def long_run_batches)
  qed
qed

theorem failed_batch_warns_and_run_goes_on_witness:
  "seg_status (segments (job (processJob failing_env ''f'' long_state)) ! 0) = SegWarning
   \<and> warningMessage (segments (job (processJob failing_env ''f'' long_state)) ! 0)
       = Some ''Translation failed''
   \<and> seg_status (segments (job (processJob failing_env ''f'' long_state)) ! 1) = SegWarning
   \<and> warningMessage (segments (job (processJob failing_env ''f'' long_state)) ! 1)
       = Some ''Translation failed''
   \<and> job_status (job (processJob failing_env ''f'' long_state)) = JobCompleted"
proof -
  note t = failed_batch_warns_and_run_goes_on [of long_state failing_env "''f''"]
  from t have w: "\<forall>k < length (run_batches long_state). \<forall>e.
      fst (flush_call failing_env (run_batches long_state ! k)
             (flush_begin ''f'' (run_batches long_state ! k) (before_batch failing_env ''f'' long_state k))) = Inl e \<longrightarrow>
      (\<forall>i \<in> set (run_batches long_state ! k).
         seg_status (segments (job (processJob failing_env ''f'' long_state)) ! i) = SegWarning
         \<and> warningMessage (segments (job (processJob failing_env ''f'' long_state)) ! i) = Some ''Translation failed'')"
    by (rule conjunct1)
  have len: "length (run_batches long_state) = 2" by (simp add: long_run_batches)
  have b0: "0 \<in> set (run_batches long_state ! 0)" and b1: "1 \<in> set (run_batches long_state ! 1)"
    by (simp_all add: long_run_batches)
  have k0: "(0::nat) < length (run_batches long_state)" and k1: "(1::nat) < length (run_batches long_state)"
    by (simp_all add: len)
  have c0: "(0::nat) < 2" and c1: "(1::nat) < 2" by simp_all
  from w k0 long_calls_fail [OF c0] b0
  have s0: "seg_status (segments (job (processJob failing_env ''f'' long_state)) ! 0) = SegWarning
         \<and> warningMessage (segments (job (processJob failing_env ''f'' long_state)) ! 0) = Some ''Translation failed''"
    by blast
  from w k1 long_calls_fail [OF c1] b1
  have s1: "seg_status (segments (job (processJob failing_env ''f'' long_state)) ! 1) = SegWarning
         \<and> warningMessage (segments (job (processJob failing_env ''f'' long_state)) ! 1) = Some ''Translation failed''"
    by blast
  from t have "job_status (job (processJob failing_env ''f'' long_state)) = JobCompleted"
    by blast
  with s0 s1 show ?thesis by blast
qed

section \<open>A response with missing or empty parts\<close>

text \<open>
  Claim C5. After the flush of a batch whose call returned a block, every segment of the
  batch has status \<open>completed\<close> and its original text unchanged, and the list of segments
  has kept its length. The translation of the segment at position \<open>k\<close> of the batch is the
  trimmed \<open>k\<close>-th part of the block when that part exists and is not blank, and the
  segment's own original text otherwise. In particular, when the block splits into fewer
  parts than the batch has segments, each segment beyond the parts is \<open>completed\<close> with its
  original as translation.
\<close>

theorem short_response_falls_back:
  assumes "distinct b" and "\<forall>i \<in> set b. i < length (segments (job st))"
    and "fst (flush_call env b (flush_begin fileId b st)) = Inr translatedBlock"
  shows "length (segments (job (flushBatch env fileId tot c b st))) = length (segments (job st))
       \<and> (\<forall>k < length b.
            seg_status (segments (job (flushBatch env fileId tot c b st)) ! (b ! k)) = SegCompleted
            \<and> original (segments (job (flushBatch env fileId tot c b st)) ! (b ! k))
                = original (segments (job st) ! (b ! k))
            \<and> translated (segments (job (flushBatch env fileId tot c b st)) ! (b ! k)) =
                (if k < length (split_delim translatedBlock)
                    \<and> trim (split_delim translatedBlock ! k) \<noteq> []
                 then trim (split_delim translatedBlock ! k)
                 else original (segments (job st) ! (b ! k))))
       \<and> (\<forall>k. length (split_delim translatedBlock) \<le> k \<and> k < length b \<longrightarrow>
            translated (segments (job (flushBatch env fileId tot c b st)) ! (b ! k))
              = original (segments (job st) ! (b ! k))
            \<and> seg_status (segments (job (flushBatch env fileId tot c b st)) ! (b ! k)) = SegCompleted)"
proof -
  let ?S' = "segments (job (flushBatch env fileId tot c b st))"
  let ?S = "segments (job st)"
  let ?parts = "split_delim translatedBlock"
  have each: "?S' ! (b ! k) = completed_with ?parts k (begun b ?S ! (b ! k))" if "k < length b" for k
    using assms(3,1,2) that by (rule flushBatch_translated)
  have orig: "original (begun b ?S ! (b ! k)) = original (?S ! (b ! k))" if "k < length b" for k
    using assms(2) that by (simp add: begun_original)
  have main: "\<forall>k < length b.
            seg_status (?S' ! (b ! k)) = SegCompleted
            \<and> original (?S' ! (b ! k)) = original (?S ! (b ! k))
            \<and> translated (?S' ! (b ! k)) =
                (if k < length ?parts \<and> trim (?parts ! k) \<noteq> [] then trim (?parts ! k)
                 else original (?S ! (b ! k)))"
    by (simp add: each orig completed_with_def part_text_eq)
  then have tail: "\<forall>k. length ?parts \<le> k \<and> k < length b \<longrightarrow>
            translated (?S' ! (b ! k)) = original (?S ! (b ! k))
            \<and> seg_status (?S' ! (b ! k)) = SegCompleted"
    by simp
  have "length ?S' = length ?S" by (rule flushBatch_length)
  with main tail show ?thesis by blast
qed

lemma two_segment_originals:
  "original (segments (job two_segment_state) ! 0) = ''A''"
  "original (segments (job two_segment_state) ! Suc 0) = ''B''"
  "length (segments (job two_segment_state)) = 2"
  by (simp_all add: job_eval)

lemma short_env_answers:
  assumes "src \<noteq> []" and "trim src \<noteq> []"
  shows "fst (translateTextSegment short_env src lang w) = Inr ''Un''"
proof -
  have "fst (translate_attempts short_env src lang 0 w) = Inr ''Un''"
    by (subst translate_attempts.simps)
       (simp add: MAX_RETRIES_def short_env_def Let_def response_text_def trim_def js_whitespace_def)
  with assms show ?thesis by (simp add: translateTextSegment_def)
qed

lemma two_segment_text:
  "textToTranslate_of (flush_begin ''f'' [0, 1] two_segment_state) [0, 1] = ''A ||| B''"
proof -
  have "original (segments (job (flush_begin ''f'' [0, 1] two_segment_state)) ! i)
        = original (segments (job two_segment_state) ! i)" if "i < 2" for i
  proof (rule original_at)
    show "map original (segments (job (flush_begin ''f'' [0, 1] two_segment_state)))
          = map original (segments (job two_segment_state))"
      by (rule flush_begin_original)
    show "i < length (segments (job two_segment_state))"
      using that by (simp add: two_segment_originals)
  qed
  then show ?thesis
    by (simp add: textToTranslate_of_def segment_at_def two_segment_originals DELIMITER_def)
qed

lemma short_call:
  "fst (flush_call short_env [0, 1] (flush_begin ''f'' [0, 1] two_segment_state)) = Inr ''Un''"
  unfolding flush_call_fst two_segment_text
  by (rule short_env_answers) (simp_all add: trim_def js_whitespace_def)

lemma split_Un: "split_delim ''Un'' = [''Un'']"
  by (simp add: split_delim_def match_delim_def js_whitespace_def)

theorem short_response_falls_back_witness:
  "length (split_delim ''Un'') = 1
   \<and> translated (segments (job (flushBatch short_env ''f'' 2 0 [0, 1] two_segment_state)) ! 0) = ''Un''
   \<and> seg_status (segments (job (flushBatch short_env ''f'' 2 0 [0, 1] two_segment_state)) ! 0) = SegCompleted
   \<and> translated (segments (job (flushBatch short_env ''f'' 2 0 [0, 1] two_segment_state)) ! 1) = ''B''
   \<and> seg_status (segments (job (flushBatch short_env ''f'' 2 0 [0, 1] two_segment_state)) ! 1) = SegCompleted"
proof -
  have d: "distinct [0, 1 :: nat]" by simp
  have r: "\<forall>i \<in> set [0, 1 :: nat]. i < length (segments (job two_segment_state))"
    by (simp add: two_segment_originals)
  note t = short_response_falls_back [OF d r short_call, of 2 0]
  let ?S' = "segments (job (flushBatch short_env ''f'' 2 0 [0, 1] two_segment_state))"
  from t have each: "\<forall>k < length [0, 1 :: nat].
            seg_status (?S' ! ([0, 1] ! k)) = SegCompleted
            \<and> original (?S' ! ([0, 1] ! k)) = original (segments (job two_segment_state) ! ([0, 1] ! k))
            \<and> translated (?S' ! ([0, 1] ! k)) =
                (if k < length (split_delim ''Un'') \<and> trim (split_delim ''Un'' ! k) \<noteq> []
                 then trim (split_delim ''Un'' ! k)
                 else original (segments (job two_segment_state) ! ([0, 1] ! k)))"
    by blast
  from each [rule_format, of 0] have k0: "seg_status (?S' ! 0) = SegCompleted \<and> translated (?S' ! 0) = ''Un''"
    by (simp add: split_Un trim_def js_whitespace_def)
  from each [rule_format, of 1] have k1: "seg_status (?S' ! 1) = SegCompleted \<and> translated (?S' ! 1) = ''B''"
    by (simp add: split_Un two_segment_originals)
  from k0 k1 show ?thesis by (simp add: split_Un)
qed

section \<open>Progress of a job\<close>

lemma run_feed:
  "progress_feed (events (world (processJob env fileId st))) =
     progress_feed (events (world st)) @ [0]
       @ map (\<lambda>n. progress_of n (length (segmentsToProcess_of (job st))))
           (attempted_after 0 (run_batches st))
       @ [100]"
  by (simp add: processJob_run' world_complete_job progress_feed_append flush_all_feed
        world_started)
     (simp add: progress_feed_def)

lemma scope_length: "length (segmentsToProcess_of j) \<le> length (segments j)"
proof -
  have "length (filter P [0..<n]) \<le> n" for P :: "nat \<Rightarrow> bool" and n
    using length_filter_le [of P "[0..<n]"] by simp
  then show ?thesis by (simp add: segmentsToProcess_of_def Let_def split: option.splits)
qed

lemma attempted_in_scope:
  assumes "n \<in> set (attempted_after 0 (run_batches st))"
  shows "0 < length (segmentsToProcess_of (job st)) \<and> n \<le> length (segmentsToProcess_of (job st))"
proof -
  have cc: "concat (run_batches st) = segmentsToProcess_of (job st)" by (rule run_batches_concat')
  have le: "n \<le> length (segmentsToProcess_of (job st))"
    using attempted_after_bounds [OF assms] by (simp add: cc)
  have "run_batches st \<noteq> []" using assms by auto
  then have "segmentsToProcess_of (job st) \<noteq> []" by (auto simp: run_batches_def)
  with le show ?thesis by simp
qed

lemma spec_order_23_of_40: "js_round (js_div (js_mul 100 23) 40) = 58"
proof -
  have "js_mul 100 23 = to_double_pos 2300"
    unfolding js_mul_def by (simp add: to_double_of_pos)
  also have "\<dots> = 2 powi (11 - 52) * of_int (575 * 2 ^ 43)"
    by (rule to_double_pos_eqI) (simp_all add: power_int_minus_divide)
  also have "\<dots> = 2300" by (simp add: power_int_minus_divide)
  finally have m: "js_mul 100 23 = 2300" .
  have "js_div 2300 40 = to_double_pos (115 / 2)"
    unfolding js_div_def by (simp add: to_double_of_pos)
  also have "\<dots> = 2 powi (5 - 52) * of_int (115 * 2 ^ 46)"
    by (rule to_double_pos_eqI) (simp_all add: power_int_minus_divide)
  also have "\<dots> = 115 / 2" by (simp add: power_int_minus_divide)
  finally have d: "js_div 2300 40 = 115 / 2" .
  show ?thesis unfolding m d by (simp add: js_round_def floor_eq_iff)
qed

text \<open>
  Claim C6. The progress the event feed of a job reports is, in order: 0 when the job
  starts processing; after each batch the value \<open>Math.round((attempted / total) * 100)\<close>
  in double precision arithmetic, where \<open>attempted\<close> counts the segments of all batches
  flushed so far and \<open>total\<close> the segments in scope; and 100 with the completion message.
  This sequence never decreases. For a job of fewer than \<open>2 ^ 32\<close> segments the value after
  a batch is the \<open>round (100 * attempted / total)\<close> of the specification, or one less than
  it, and one less only where the exact percentage lies halfway between two integers.
  Before every batch, and after the last, the job has status \<open>processing\<close> and its own
  \<open>progress\<close> field still has the value it had before the run; the run ends with status
  \<open>completed\<close> and progress 100.
\<close>

theorem progress_of_a_run:
  "progress_feed (events (world (processJob env fileId st))) =
     progress_feed (events (world st)) @ [0]
       @ map (\<lambda>n. progress_of n (length (segmentsToProcess_of (job st))))
           (attempted_after 0 (run_batches st))
       @ [100]
   \<and> sorted ([0]
       @ map (\<lambda>n. progress_of n (length (segmentsToProcess_of (job st))))
           (attempted_after 0 (run_batches st))
       @ [100])
   \<and> (\<forall>k < length (run_batches st).
         attempted_after 0 (run_batches st) ! k = length (concat (take (Suc k) (run_batches st))))
   \<and> concat (run_batches st) = segmentsToProcess_of (job st)
   \<and> (length (segments (job st)) < 2 ^ 32 \<longrightarrow>
       (\<forall>n \<in> set (attempted_after 0 (run_batches st)).
          progress_of n (length (segmentsToProcess_of (job st)))
            = spec_progress n (length (segmentsToProcess_of (job st)))
          \<or> (progress_of n (length (segmentsToProcess_of (job st)))
                = spec_progress n (length (segmentsToProcess_of (job st))) - 1
              \<and> of_int (spec_progress n (length (segmentsToProcess_of (job st))))
                = 100 * of_nat n / (of_nat (length (segmentsToProcess_of (job st))) :: rat) + 1 / 2)))
   \<and> (\<forall>k \<le> length (run_batches st).
         job_status (job (before_batch env fileId st k)) = JobProcessing
         \<and> progress (job (before_batch env fileId st k)) = progress (job st))
   \<and> job_status (job (processJob env fileId st)) = JobCompleted
   \<and> progress (job (processJob env fileId st)) = 100"
proof -
  let ?scope = "segmentsToProcess_of (job st)"
  let ?bs = "run_batches st"
  have feed: "progress_feed (events (world (processJob env fileId st))) =
     progress_feed (events (world st)) @ [0]
       @ map (\<lambda>n. progress_of n (length ?scope)) (attempted_after 0 ?bs) @ [100]"
    by (rule run_feed)
  have cc: "concat ?bs = ?scope" by (rule run_batches_concat')
  then have "length (concat ?bs) = length ?scope" by simp
  then have sorted: "sorted ([0] @ map (\<lambda>n. progress_of n (length ?scope)) (attempted_after 0 ?bs) @ [100])"
    by (rule progress_values_sorted)
  have nth: "\<forall>k < length ?bs. attempted_after 0 ?bs ! k = length (concat (take (Suc k) ?bs))"
    by (simp add: attempted_after_nth)
  have formula: "length (segments (job st)) < 2 ^ 32 \<longrightarrow>
       (\<forall>n \<in> set (attempted_after 0 ?bs).
          progress_of n (length ?scope) = spec_progress n (length ?scope)
          \<or> (progress_of n (length ?scope) = spec_progress n (length ?scope) - 1
              \<and> of_int (spec_progress n (length ?scope))
                = 100 * of_nat n / (of_nat (length ?scope) :: rat) + 1 / 2))"
  proof (intro impI ballI)
    fix n
    assume small: "length (segments (job st)) < 2 ^ 32"
      and n: "n \<in> set (attempted_after 0 ?bs)"
    have "length ?scope \<le> length (segments (job st))" by (rule scope_length)
    with small have t: "length ?scope < 2 ^ 32" by simp
    from attempted_in_scope [OF n] have "0 < length ?scope" and "n \<le> length ?scope" by simp_all
    then show "progress_of n (length ?scope) = spec_progress n (length ?scope)
          \<or> (progress_of n (length ?scope) = spec_progress n (length ?scope) - 1
              \<and> of_int (spec_progress n (length ?scope))
                = 100 * of_nat n / (of_nat (length ?scope) :: rat) + 1 / 2)"
      unfolding spec_progress_def using t by (rule progress_of_nearest)
  qed
  have during: "\<forall>k \<le> length ?bs.
         job_status (job (before_batch env fileId st k)) = JobProcessing
         \<and> progress (job (before_batch env fileId st k)) = progress (job st)"
  proof (intro allI impI)
    fix k
    have e: "job (before_batch env fileId st k) =
          (job (started fileId st))\<lparr>segments := segments (job (before_batch env fileId st k))\<rparr>"
      unfolding before_batch_def by (rule flush_all_fields)
    have "job_status (job (before_batch env fileId st k)) = JobProcessing"
      using arg_cong [OF e, of job_status] by (simp add: job_started)
    moreover have "progress (job (before_batch env fileId st k)) = progress (job st)"
      using arg_cong [OF e, of progress] by (simp add: job_started)
    ultimately show "job_status (job (before_batch env fileId st k)) = JobProcessing
         \<and> progress (job (before_batch env fileId st k)) = progress (job st)"
      by simp
  qed
  have status: "job_status (job (processJob env fileId st)) = JobCompleted
              \<and> progress (job (processJob env fileId st)) = 100"
    by (simp add: processJob_run' job_complete_job)
  from feed sorted nth cc formula during status show ?thesis by blast
qed

lemma long_progress:
  "map (\<lambda>n. progress_of n (length [0, 1 :: nat])) (attempted_after 0 [[0], [1]]) = [50, 100]"
proof -
  have "js_div 1 2 = to_double_pos (1 / 2)"
    unfolding js_div_def by (simp add: to_double_of_pos)
  also have "\<dots> = 2 powi (- 1 - 52) * of_int (2 ^ 52)"
    by (rule to_double_pos_eqI) (simp_all add: power_int_minus_divide)
  also have "\<dots> = 1 / 2" by (simp add: power_int_minus_divide)
  finally have d: "js_div 1 2 = 1 / 2" .
  have "js_mul (1 / 2) 100 = to_double_pos 50"
    unfolding js_mul_def by (simp add: to_double_of_pos)
  also have "\<dots> = 2 powi (5 - 52) * of_int (25 * 2 ^ 48)"
    by (rule to_double_pos_eqI) (simp_all add: power_int_minus_divide)
  also have "\<dots> = 50" by (simp add: power_int_minus_divide)
  finally have m: "js_mul (1 / 2) 100 = 50" .
  have "progress_of 1 2 = js_round 50"
    by (simp only: progress_of_def of_nat_numeral of_nat_1 d m)
  then have "progress_of 1 2 = 50" by (simp add: js_round_def floor_eq_iff)
  then have h: "progress_of (Suc 0) 2 = 50" by simp
  have f: "progress_of 2 2 = 100" by (rule progress_of_full) simp
  have e2: "Suc (Suc 0) = 2" by simp
  have "map (\<lambda>n. progress_of n (length [0, 1 :: nat])) (attempted_after 0 [[0], [1]])
        = [progress_of (Suc 0) (Suc (Suc 0)), progress_of (Suc (Suc 0)) (Suc (Suc 0))]"
    by simp
  also have "\<dots> = [50, 100]" unfolding e2 h f ..
  finally show ?thesis .
qed

lemma long_segments: "length (segments (job long_state)) = 2"
  by (simp add: job_eval)

theorem progress_of_a_run_witness:
  "length (segments (job long_state)) < 2 ^ 32
   \<and> progress_feed (events (world (processJob echo_env ''f'' long_state))) = [0, 50, 100, 100]
   \<and> progress_of 1 2 = spec_progress 1 2
   \<and> spec_progress 1 2 = 50"
proof -
  note t = progress_of_a_run [of echo_env "''f''" long_state]
  have small: "length (segments (job long_state)) < 2 ^ 32" by (simp add: long_segments)
  have "progress_feed (events (world (processJob echo_env ''f'' long_state))) =
     progress_feed (events (world long_state)) @ [0]
       @ map (\<lambda>n. progress_of n (length (segmentsToProcess_of (job long_state))))
           (attempted_after 0 (run_batches long_state))
       @ [100]"
    using t by (rule conjunct1)
  also have "\<dots> = progress_feed (events (world long_state)) @ [0] @ [50, 100] @ [100]"
    unfolding long_scope long_run_batches long_progress ..
  also have "progress_feed (events (world long_state)) = []"
    by (simp add: job_eval progress_feed_def)
  finally have feed: "progress_feed (events (world (processJob echo_env ''f'' long_state)))
      = [0, 50, 100, 100]" by simp
  have sp: "spec_progress 1 2 = 50" by (simp add: spec_progress_def js_round_def floor_eq_iff)
  from t have "length (segments (job long_state)) < 2 ^ 32 \<longrightarrow>
       (\<forall>n \<in> set (attempted_after 0 (run_batches long_state)).
          progress_of n (length (segmentsToProcess_of (job long_state)))
            = spec_progress n (length (segmentsToProcess_of (job long_state)))
          \<or> (progress_of n (length (segmentsToProcess_of (job long_state)))
                = spec_progress n (length (segmentsToProcess_of (job long_state))) - 1
              \<and> of_int (spec_progress n (length (segmentsToProcess_of (job long_state))))
                = 100 * of_nat n / (of_nat (length (segmentsToProcess_of (job long_state))) :: rat) + 1 / 2))"
    by blast
  with small have all: "\<forall>n \<in> set (attempted_after 0 (run_batches long_state)).
          progress_of n (length (segmentsToProcess_of (job long_state)))
            = spec_progress n (length (segmentsToProcess_of (job long_state)))
          \<or> (progress_of n (length (segmentsToProcess_of (job long_state)))
                = spec_progress n (length (segmentsToProcess_of (job long_state))) - 1
              \<and> of_int (spec_progress n (length (segmentsToProcess_of (job long_state))))
                = 100 * of_nat n / (of_nat (length (segmentsToProcess_of (job long_state))) :: rat) + 1 / 2)"
    by (rule rev_mp)
  have mem: "1 \<in> set (attempted_after 0 (run_batches long_state))"
    by (simp add: long_run_batches)
  have len2: "length (segmentsToProcess_of (job long_state)) = 2" by (simp add: long_scope)
  note d = bspec [OF all mem, unfolded len2]
  have "of_int (spec_progress 1 2) \<noteq> 100 * of_nat 1 / (of_nat 2 :: rat) + 1 / 2"
    unfolding sp by simp
  with d have p: "progress_of 1 2 = spec_progress 1 2" by blast
  from small feed p sp show ?thesis by (intro conjI)
qed

text \<open>
  The job of forty segments reports 57 after its first batch of twenty-three, where the
  formula of the specification gives 58, in exact arithmetic and also when its own order
  of operations, \<open>100 * 23 / 40\<close>, is evaluated in doubles.
\<close>

theorem progress_is_not_the_rounded_ratio:
  "progress_feed (events (world (processJob echo_env ''f'' ratio_state))) = [0, 57, 100, 100]
   \<and> attempted_after 0 (run_batches ratio_state) = [23, 40]
   \<and> length (segmentsToProcess_of (job ratio_state)) = 40
   \<and> spec_progress 23 40 = 58
   \<and> js_round (js_div (js_mul 100 23) 40) = 58"
proof -
  have "progress_feed (events (world (processJob echo_env ''f'' ratio_state))) =
     progress_feed (events (world ratio_state)) @ [0]
       @ map (\<lambda>n. progress_of n (length (segmentsToProcess_of (job ratio_state))))
           (attempted_after 0 (run_batches ratio_state))
       @ [100]"
    by (rule run_feed)
  also have "\<dots> = progress_feed (events (world ratio_state)) @ [0]
       @ map (\<lambda>n. progress_of n 40) [23, 40] @ [100]"
    unfolding ratio_attempted ratio_scope by simp
  also have "progress_feed (events (world ratio_state)) = []"
    by (simp add: ratio_state_def empty_world_def progress_feed_def)
  finally have feed: "progress_feed (events (world (processJob echo_env ''f'' ratio_state)))
      = [0, 57, 100, 100]"
    by (simp add: progress_23_of_40 progress_of_full)
  have sp: "spec_progress 23 40 = 58" by (simp add: spec_progress_def js_round_def floor_eq_iff)
  have len: "length (segmentsToProcess_of (job ratio_state)) = 40" by (simp add: ratio_scope)
  from feed ratio_attempted len sp spec_order_23_of_40 show ?thesis by simp
qed

section \<open>A response that echoes the request\<close>

text \<open>
  Claim C7, as the code has it. Take a batch of distinct segments of the job, none of
  whose originals contains three bars in a row, and let the remote model answer the first
  attempt of the flush with the very text it was sent, the originals joined by the
  delimiter. After the flush every segment of the batch has its original unchanged, and
  its translation is its original with leading and trailing white space removed (the
  original itself when it is blank). So the translation equals the original for every
  segment whose original neither starts nor ends with white space.
\<close>

theorem echo_gives_trimmed_original:
  assumes "b \<noteq> []" and "distinct b" and "\<forall>i \<in> set b. i < length (segments (job st))"
    and "\<forall>i \<in> set b. \<not> js_includes (original (segments (job st) ! i)) ''|||''"
    and "remote env (net_calls (world st)) (targetLang (job st)) (textToTranslate_of st b)
         = Response (Some (textToTranslate_of st b))"
  shows "\<forall>k < length b.
           translated (segments (job (flushBatch env fileId tot c b st)) ! (b ! k)) =
             (if trim (original (segments (job st) ! (b ! k))) \<noteq> []
              then trim (original (segments (job st) ! (b ! k)))
              else original (segments (job st) ! (b ! k)))
           \<and> original (segments (job (flushBatch env fileId tot c b st)) ! (b ! k))
               = original (segments (job st) ! (b ! k))
           \<and> (trim (original (segments (job st) ! (b ! k))) = original (segments (job st) ! (b ! k))
                \<longrightarrow> translated (segments (job (flushBatch env fileId tot c b st)) ! (b ! k))
                     = original (segments (job (flushBatch env fileId tot c b st)) ! (b ! k)))"
proof (intro allI impI)
  fix k assume k: "k < length b"
  let ?S = "segments (job st)" and ?S' = "segments (job (flushBatch env fileId tot c b st))"
  let ?os = "map (\<lambda>i. original (?S ! i)) b"
  let ?src = "js_join DELIMITER ?os"
  let ?X = "if trim ?src = [] then ?src else trim ?src"
  have src: "textToTranslate_of (flush_begin fileId b st) b = ?src"
    using assms(3) by (rule text_of_batch)
  have src': "textToTranslate_of st b = ?src"
    using text_of_batch_same [OF assms(3), of fileId] src by simp
  have call: "fst (flush_call env b (flush_begin fileId b st)) = Inr ?X"
    unfolding flush_call_fst src
    using assms(5) unfolding src'
    by (intro echo_answer) (simp add: world_flush_begin_calls job_flush_begin_lang)
  have nb: "\<forall>x \<in> set ?os. no_bars x" using assms(4) by (simp add: no_bars_def)
  have "?os \<noteq> []" using assms(1) by simp
  then have pt: "part_text (split_delim ?X) k = trim (?os ! k)"
    using nb k by (intro part_text_of_echo) simp_all
  have seg: "?S' ! (b ! k) = completed_with (split_delim ?X) k (begun b ?S ! (b ! k))"
    using call assms(2,3) k by (rule flushBatch_translated)
  have o: "original (begun b ?S ! (b ! k)) = original (?S ! (b ! k))"
    using assms(3) k by (simp add: begun_original)
  have t: "translated (?S' ! (b ! k)) =
             (if trim (original (?S ! (b ! k))) \<noteq> [] then trim (original (?S ! (b ! k)))
              else original (?S ! (b ! k)))"
    using k by (simp add: seg completed_with_def pt o)
  have o': "original (?S' ! (b ! k)) = original (?S ! (b ! k))"
    by (simp add: seg completed_with_def o)
  show "translated (?S' ! (b ! k)) =
             (if trim (original (?S ! (b ! k))) \<noteq> [] then trim (original (?S ! (b ! k)))
              else original (?S ! (b ! k)))
        \<and> original (?S' ! (b ! k)) = original (?S ! (b ! k))
        \<and> (trim (original (?S ! (b ! k))) = original (?S ! (b ! k))
             \<longrightarrow> translated (?S' ! (b ! k)) = original (?S' ! (b ! k)))"
    using t o' by simp
qed

lemma two_segment_facts:
  "net_calls (world two_segment_state) = 0"
  "targetLang (job two_segment_state) = ''fr''"
  by (simp_all add: job_eval)

theorem echo_gives_trimmed_original_witness:
  "translated (segments (job (flushBatch echo_env ''f'' 2 0 [0, 1] two_segment_state)) ! 0) = ''A''
   \<and> translated (segments (job (flushBatch echo_env ''f'' 2 0 [0, 1] two_segment_state)) ! 1) = ''B''
   \<and> original (segments (job (flushBatch echo_env ''f'' 2 0 [0, 1] two_segment_state)) ! 0) = ''A''
   \<and> original (segments (job (flushBatch echo_env ''f'' 2 0 [0, 1] two_segment_state)) ! 1) = ''B''"
proof -
  have ne: "[0, 1 :: nat] \<noteq> []" by simp
  have d: "distinct [0, 1 :: nat]" by simp
  have r: "\<forall>i \<in> set [0, 1 :: nat]. i < length (segments (job two_segment_state))"
    by (simp add: two_segment_originals)
  have nb: "\<forall>i \<in> set [0, 1 :: nat]. \<not> js_includes (original (segments (job two_segment_state) ! i)) ''|||''"
    by (simp add: two_segment_originals)
  have e: "remote echo_env (net_calls (world two_segment_state)) (targetLang (job two_segment_state))
             (textToTranslate_of two_segment_state [0, 1])
           = Response (Some (textToTranslate_of two_segment_state [0, 1]))"
    by (simp add: echo_env_def)
  note t = echo_gives_trimmed_original [OF ne d r nb e, of "''f''" 2 0]
  from t [rule_format, of 0] have k0:
    "translated (segments (job (flushBatch echo_env ''f'' 2 0 [0, 1] two_segment_state)) ! 0) = ''A''
     \<and> original (segments (job (flushBatch echo_env ''f'' 2 0 [0, 1] two_segment_state)) ! 0) = ''A''"
    by (simp add: two_segment_originals trim_def js_whitespace_def)
  from t [rule_format, of 1] have k1:
    "translated (segments (job (flushBatch echo_env ''f'' 2 0 [0, 1] two_segment_state)) ! 1) = ''B''
     \<and> original (segments (job (flushBatch echo_env ''f'' 2 0 [0, 1] two_segment_state)) ! 1) = ''B''"
    by (simp add: two_segment_originals trim_def js_whitespace_def)
  from k0 k1 show ?thesis by simp
qed

lemma hello_facts:
  "original (segments (job hello_state) ! 0) = ''Hello ''"
  "length (segments (job hello_state)) = 1"
  "net_calls (world hello_state) = 0"
  "targetLang (job hello_state) = ''fr''"
  "segmentsToProcess_of (job hello_state) = [0]"
  by (simp_all add: job_eval segmentsToProcess_of_def)

lemma hello_text: "textToTranslate_of hello_state [0] = ''Hello ''"
  by (simp add: textToTranslate_of_def segment_at_def hello_facts)

lemma hello_call:
  "fst (flush_call echo_env [0] (flush_begin ''f'' [0] hello_state)) = Inr ''Hello''"
proof -
  have r: "\<forall>i \<in> set [0 :: nat]. i < length (segments (job hello_state))"
    by (simp add: hello_facts)
  have t: "textToTranslate_of (flush_begin ''f'' [0] hello_state) [0] = ''Hello ''"
    using text_of_batch_same [OF r, of "''f''"] hello_text by simp
  have "fst (translateTextSegment echo_env ''Hello '' ''fr'' (world (sleep 6000 (flush_begin ''f'' [0] hello_state))))
        = Inr (if trim ''Hello '' = [] then ''Hello '' else trim ''Hello '')"
    by (rule echo_answer) (simp add: echo_env_def)
  then show ?thesis
    unfolding flush_call_fst t job_flush_begin_lang hello_facts
    by (simp add: trim_def js_whitespace_def)
qed

lemma split_Hello: "split_delim ''Hello'' = [''Hello'']"
  by (simp add: split_delim_def match_delim_def js_whitespace_def)


text \<open>
  Claim C7 as it was stated fails. The job has one segment with the original \<open>Hello \<close>,
  ending with a space; the remote model echoes the request. The client trims the response
  and the scheduler trims the part, so the translation is \<open>Hello\<close>, which is not the
  original.
\<close>

theorem echo_of_trailing_space_differs:
  "run_batches hello_state = [[0]]
   \<and> remote echo_env (net_calls (world hello_state)) (targetLang (job hello_state))
        (textToTranslate_of hello_state [0])
       = Response (Some (textToTranslate_of hello_state [0]))
   \<and> original (segments (job (flushBatch echo_env ''f'' 1 0 [0] hello_state)) ! 0) = ''Hello ''
   \<and> translated (segments (job (flushBatch echo_env ''f'' 1 0 [0] hello_state)) ! 0) = ''Hello''
   \<and> translated (segments (job (flushBatch echo_env ''f'' 1 0 [0] hello_state)) ! 0)
       \<noteq> original (segments (job (flushBatch echo_env ''f'' 1 0 [0] hello_state)) ! 0)"
proof -
  have d: "distinct [0 :: nat]" by simp
  have r: "\<forall>i \<in> set [0 :: nat]. i < length (segments (job hello_state))"
    by (simp add: hello_facts)
  have k: "(0 :: nat) < length [0 :: nat]" by simp
  have "segments (job (flushBatch echo_env ''f'' 1 0 [0] hello_state)) ! ([0] ! 0)
        = completed_with (split_delim ''Hello'') 0 (begun [0] (segments (job hello_state)) ! ([0] ! 0))"
    using hello_call d r k by (rule flushBatch_translated)
  then have seg: "segments (job (flushBatch echo_env ''f'' 1 0 [0] hello_state)) ! 0
        = completed_with [''Hello''] 0 (begun [0] (segments (job hello_state)) ! 0)"
    by (simp add: split_Hello)
  have o: "original (begun [0] (segments (job hello_state)) ! 0) = ''Hello ''"
    by (simp add: begun_original hello_facts)
  have t: "translated (segments (job (flushBatch echo_env ''f'' 1 0 [0] hello_state)) ! 0) = ''Hello''"
    unfolding seg by (simp add: completed_with_def part_text_def trim_def js_whitespace_def)
  have o': "original (segments (job (flushBatch echo_env ''f'' 1 0 [0] hello_state)) ! 0) = ''Hello ''"
    unfolding seg by (simp add: completed_with_def o)
  have b: "run_batches hello_state = [[0]]"
    by (simp add: run_batches_def hello_facts MAX_BATCH_CHARS_def)
  have e: "remote echo_env (net_calls (world hello_state)) (targetLang (job hello_state))
        (textToTranslate_of hello_state [0]) = Response (Some (textToTranslate_of hello_state [0]))"
    by (simp add: echo_env_def)
  from b e t o' show ?thesis by simp
qed


text \<open>
  The condition on three bars cannot be dropped: an original that contains the delimiter
  comes back split, and the segment takes the first part.
\<close>

lemma bars_facts:
  "original (segments (job bars_state) ! 0) = ''a ||| b''"
  "length (segments (job bars_state)) = 1"
  "targetLang (job bars_state) = ''fr''"
  by (simp_all add: job_eval)

lemma bars_call:
  "fst (flush_call echo_env [0] (flush_begin ''f'' [0] bars_state)) = Inr ''a ||| b''"
proof -
  have r: "\<forall>i \<in> set [0 :: nat]. i < length (segments (job bars_state))"
    by (simp add: bars_facts)
  have "textToTranslate_of bars_state [0] = ''a ||| b''"
    by (simp add: textToTranslate_of_def segment_at_def bars_facts)
  then have t: "textToTranslate_of (flush_begin ''f'' [0] bars_state) [0] = ''a ||| b''"
    using text_of_batch_same [OF r, of "''f''"] by simp
  have "fst (translateTextSegment echo_env ''a ||| b'' ''fr'' (world (sleep 6000 (flush_begin ''f'' [0] bars_state))))
        = Inr (if trim ''a ||| b'' = [] then ''a ||| b'' else trim ''a ||| b'')"
    by (rule echo_answer) (simp add: echo_env_def)
  then show ?thesis
    unfolding flush_call_fst t job_flush_begin_lang bars_facts
    by (simp add: trim_def js_whitespace_def)
qed

lemma split_bars: "split_delim ''a ||| b'' = [''a'', ''b'']"
  by (simp add: split_delim_def match_delim_def js_whitespace_def)

lemma echo_of_bars_differs:
  "original (segments (job (flushBatch echo_env ''f'' 1 0 [0] bars_state)) ! 0) = ''a ||| b''
   \<and> translated (segments (job (flushBatch echo_env ''f'' 1 0 [0] bars_state)) ! 0) = ''a''"
proof -
  have d: "distinct [0 :: nat]" by simp
  have r: "\<forall>i \<in> set [0 :: nat]. i < length (segments (job bars_state))"
    by (simp add: bars_facts)
  have k: "(0 :: nat) < length [0 :: nat]" by simp
  have "segments (job (flushBatch echo_env ''f'' 1 0 [0] bars_state)) ! ([0] ! 0)
        = completed_with (split_delim ''a ||| b'') 0 (begun [0] (segments (job bars_state)) ! ([0] ! 0))"
    using bars_call d r k by (rule flushBatch_translated)
  then have seg: "segments (job (flushBatch echo_env ''f'' 1 0 [0] bars_state)) ! 0
        = completed_with [''a'', ''b''] 0 (begun [0] (segments (job bars_state)) ! 0)"
    by (simp add: split_bars)
  have o: "original (begun [0] (segments (job bars_state)) ! 0) = ''a ||| b''"
    by (simp add: begun_original bars_facts)
  show ?thesis
    unfolding seg by (simp add: completed_with_def part_text_def trim_def js_whitespace_def o)
qed


section \<open>The start of a flush\<close>

lemma flush_begin_keeps_others:
  "i \<noteq> last b \<Longrightarrow> segments (job (flush_begin fileId b st)) ! i = segments (job st) ! i"
  by (simp add: job_flush_begin begun_def)

text \<open>
  Claim C8 on the job of two short segments. Both segments form one batch. At the start
  of its flush a message with status \<open>translating\<close> goes out for each of the two, but
  only the segment that closed the batch has its status set: the first segment is still
  \<open>pending\<close> when the translation client is called.
\<close>

theorem flush_begin_marks_last_only:
  "segmentsToProcess_of two_segment_job = [0, 1]
   \<and> batches_from (segments two_segment_job) [0, 1] [] 0 = [[0, 1]]
   \<and> map seg_status (segments (job (flush_begin ''f'' [0, 1] two_segment_state)))
       = [SegPending, SegTranslating]
   \<and> events (world (flush_begin ''f'' [0, 1] two_segment_state))
       = [SEGMENT_TRANSLATION ''f'' ''s0'' 0 [] ''A'' (Some SegTranslating),
          SEGMENT_TRANSLATION ''f'' ''s1'' 1 [] ''B'' (Some SegTranslating)]"
  by (simp add: job_eval segmentsToProcess_of_def MAX_BATCH_CHARS_def flush_begin_eq Let_def
        update_segment_def segment_at_def translating_message_def
        upt_rec [of 0] upt_rec [of 1] upt_rec [of 2])


section \<open>A job with nothing in scope\<close>

text \<open>
  Claim C9. When no segment of the job is in scope, \<open>processFile\<close> sets the job to
  \<open>completed\<close> with progress 100 and changes nothing else of it; it sends the message that
  processing started and then the completion message carrying that job; it makes no
  network call and waits for nothing.
\<close>

theorem empty_scope_completes_at_once:
  assumes "segmentsToProcess_of (job st) = []"
  shows "job (processJob env fileId st) = (job st)\<lparr>job_status := JobCompleted, progress := 100\<rparr>
       \<and> events (world (processJob env fileId st)) =
           events (world st)
           @ [FILE_PROGRESS fileId 0 (Some JobProcessing) None,
              FILE_COMPLETE fileId ((job st)\<lparr>job_status := JobCompleted, progress := 100\<rparr>)]
       \<and> net_calls (world (processJob env fileId st)) = net_calls (world st)
       \<and> sleeps (world (processJob env fileId st)) = sleeps (world st)"
  using assms
  by (simp add: processJob_run job_complete_job world_complete_job job_started world_started)

lemma outside_scope: "segmentsToProcess_of (job outside_state) = []"
  by (simp add: job_eval segmentsToProcess_of_def in_buffer_def
        upt_rec [of 0] upt_rec [of 1] upt_rec [of 2])

theorem empty_scope_completes_at_once_witness:
  "segmentsToProcess_of (job outside_state) = []
   \<and> (job (processJob failing_env ''f'' outside_state) =
        (job outside_state)\<lparr>job_status := JobCompleted, progress := 100\<rparr>
      \<and> events (world (processJob failing_env ''f'' outside_state)) =
           events (world outside_state)
           @ [FILE_PROGRESS ''f'' 0 (Some JobProcessing) None,
              FILE_COMPLETE ''f'' ((job outside_state)\<lparr>job_status := JobCompleted, progress := 100\<rparr>)]
      \<and> net_calls (world (processJob failing_env ''f'' outside_state)) = net_calls (world outside_state)
      \<and> sleeps (world (processJob failing_env ''f'' outside_state)) = sleeps (world outside_state))"
  by (rule conjI [OF outside_scope empty_scope_completes_at_once [OF outside_scope]])


section \<open>The segments of a download\<close>

text \<open>
  Claim C10. For a job with a selected range, \<open>generateDownload\<close> hands to the
  reassembler exactly the job's segments whose page number lies in the range itself or is
  undefined, in their order. No segment of the pages \<open>start - 1\<close> and \<open>end + 1\<close> is among
  them, and every segment without a page number is, whereas the translation scope, when
  the page count is set, holds no segment without a page number.
\<close>

theorem download_is_strict_range:
  assumes "selectedRange j = Some r"
  shows "segmentsToDownload_of j =
           filter (\<lambda>s. pageNumber s = None
                       \<or> (\<exists>n. pageNumber s = Some n \<and> range_start r \<le> n \<and> n \<le> range_end r))
             (segments j)
       \<and> (\<forall>s \<in> set (segmentsToDownload_of j).
             pageNumber s \<noteq> Some (range_start r - 1) \<and> pageNumber s \<noteq> Some (range_end r + 1))
       \<and> (\<forall>s \<in> set (segments j). pageNumber s = None \<longrightarrow> s \<in> set (segmentsToDownload_of j))
       \<and> (\<forall>pc. pageCount j = Some pc \<and> pc \<noteq> 0 \<longrightarrow>
             (\<forall>i \<in> set (segmentsToProcess_of j). pageNumber (segments j ! i) \<noteq> None))
       \<and> (\<forall>b fileId originalFile reassembleFile.
             map_of (jobs b) fileId = Some j \<and> map_of (fileStorage b) fileId = Some originalFile \<longrightarrow>
             generateDownload reassembleFile fileId b = reassembleFile originalFile (segmentsToDownload_of j))"
proof -
  have p: "(\<lambda>s. case pageNumber s of None \<Rightarrow> True | Some n \<Rightarrow> n \<ge> range_start r \<and> n \<le> range_end r)
         = (\<lambda>s. pageNumber s = None
                 \<or> (\<exists>n. pageNumber s = Some n \<and> range_start r \<le> n \<and> n \<le> range_end r))"
    by (rule ext) (simp split: option.splits)
  have 1: "segmentsToDownload_of j =
           filter (\<lambda>s. pageNumber s = None
                       \<or> (\<exists>n. pageNumber s = Some n \<and> range_start r \<le> n \<and> n \<le> range_end r))
             (segments j)"
    using assms by (simp add: segmentsToDownload_of_def p)
  have 2: "\<forall>s \<in> set (segmentsToDownload_of j).
             pageNumber s \<noteq> Some (range_start r - 1) \<and> pageNumber s \<noteq> Some (range_end r + 1)"
    unfolding 1 by auto
  have 3: "\<forall>s \<in> set (segments j). pageNumber s = None \<longrightarrow> s \<in> set (segmentsToDownload_of j)"
    unfolding 1 by simp
  have 4: "\<forall>pc. pageCount j = Some pc \<and> pc \<noteq> 0 \<longrightarrow>
             (\<forall>i \<in> set (segmentsToProcess_of j). pageNumber (segments j ! i) \<noteq> None)"
    using assms by (auto simp: segmentsToProcess_of_def in_buffer_def Let_def split: option.splits)
  have 5: "\<forall>b fileId originalFile reassembleFile.
             map_of (jobs b) fileId = Some j \<and> map_of (fileStorage b) fileId = Some originalFile \<longrightarrow>
             generateDownload reassembleFile fileId b = reassembleFile originalFile (segmentsToDownload_of j)"
    by (simp add: generateDownload_def)
  from 1 2 3 4 5 show ?thesis by blast
qed

theorem download_is_strict_range_witness:
  "selectedRange range_job = Some \<lparr>range_start = 5, range_end = 15\<rparr>
   \<and> map seg_id (segmentsToDownload_of range_job) = [''s2'', ''s5'']
   \<and> generateDownload (\<lambda>f segs. Some (map seg_id segs)) ''f'' range_backend = Some [''s2'', ''s5'']"
proof -
  let ?r = "\<lparr>range_start = 5, range_end = 15\<rparr>"
  have sel: "selectedRange range_job = Some ?r"
    by (simp add: job_eval)
  have d: "segmentsToDownload_of range_job =
           filter (\<lambda>s. pageNumber s = None
                       \<or> (\<exists>n. pageNumber s = Some n \<and> range_start ?r \<le> n \<and> n \<le> range_end ?r))
             (segments range_job)"
    using download_is_strict_range [OF sel] by (rule conjunct1)
  have ids: "map seg_id (segmentsToDownload_of range_job) = [''s2'', ''s5'']"
    unfolding d by (simp add: job_eval)
  have "generateDownload (\<lambda>f segs. Some (map seg_id segs)) ''f'' range_backend
        = Some (map seg_id (segmentsToDownload_of range_job))"
    by (simp add: generateDownload_def range_backend_def)
  with sel ids show ?thesis by simp
qed


end
